theory Spec2Isabelle
  imports Main "HOL-Library.Multiset"
begin

section \<open>Errors\<close>

text \<open>
  The ways an operation of \<^verbatim>\<open>main.cpp\<close> can stop without a result:
  \<^item> \<open>OutOfRange\<close>: \<^verbatim>\<open>elements_[i]\<close> (or \<^verbatim>\<open>results[i]\<close>) with \<open>i\<close> not below the
    vector's size. C++ leaves this undefined; the model stops there. The one such read
    that the manager meets is followed as the compiled program performs it
    (\<open>erase_unchecked\<close> below).
  \<^item> \<open>NotAdjacent\<close>: the \<^verbatim>\<open>std::runtime_error\<close> thrown by \<^verbatim>\<open>MemorySegment::Unite\<close>.
  \<^item> \<open>InvalidIterator\<close>: a list iterator that names no node of \<^verbatim>\<open>memory_segments_\<close>
    is dereferenced.
\<close>

datatype error = OutOfRange | NotAdjacent | InvalidIterator

section \<open>Heap\<close>

text \<open>
  \<^verbatim>\<open>Heap<T, Compare>\<close> keeps its elements in \<^verbatim>\<open>std::vector<T> elements_\<close>, here an
  \<open>'a list\<close>. The comparator and the index-change observer are fixed at construction
  and are parameters of every operation. In the program both reach outside the heap (the
  elements are iterators, the comparator reads the segments they point to, the observer
  writes a segment's \<^verbatim>\<open>heap_index\<close>), so they take the outside state \<open>'s\<close>: the
  comparator reads it, the observer returns it updated. A heap operation works on the
  pair of the outside state and \<^verbatim>\<open>elements_\<close>.

  A \<^verbatim>\<open>size_t\<close> that may be \<^verbatim>\<open>kNullIndex\<close> (\<^verbatim>\<open>static_cast<size_t>(-1)\<close>) is a
  \<open>nat option\<close> with \<open>None\<close> for \<^verbatim>\<open>kNullIndex\<close>: a vector never has that many elements,
  so \<^verbatim>\<open>kNullIndex\<close> is no slot of any heap.
\<close>

type_synonym size_t = "nat option"

abbreviation kNullIndex :: size_t where
  "kNullIndex \<equiv> None"

type_synonym ('a, 's) compare = "'s \<Rightarrow> 'a \<Rightarrow> 'a \<Rightarrow> bool"
type_synonym ('a, 's) observer = "'a \<Rightarrow> size_t \<Rightarrow> 's \<Rightarrow> 's"

definition Parent :: "nat \<Rightarrow> nat" where
  "Parent index = (if index \<noteq> 0 then (index - 1) div 2 else index)"

definition LeftSon :: "'a list \<Rightarrow> nat \<Rightarrow> size_t" where
  "LeftSon elements index =
     (if index < length elements div 2 then Some (2 * index + 1) else kNullIndex)"

definition RightSon :: "'a list \<Rightarrow> nat \<Rightarrow> size_t" where
  "RightSon elements index =
     (if length elements > 2 \<and> index < (length elements - 1) div 2
      then Some (2 * index + 2) else kNullIndex)"

definition CompareElements ::
  "('a, 's) compare \<Rightarrow> 's \<times> 'a list \<Rightarrow> nat \<Rightarrow> nat \<Rightarrow> error + bool" where
  "CompareElements compare st first_index second_index =
     (if first_index < length (snd st) \<and> second_index < length (snd st)
      then Inr (compare (fst st) (snd st ! first_index) (snd st ! second_index))
      else Inl OutOfRange)"

definition SwapElements ::
  "('a, 's) observer \<Rightarrow> 's \<times> 'a list \<Rightarrow> nat \<Rightarrow> nat \<Rightarrow> error + 's \<times> 'a list" where
  "SwapElements observer st first_index second_index =
     (if first_index < length (snd st) \<and> second_index < length (snd st)
      then Inr (observer (snd st ! second_index) (Some first_index)
                  (observer (snd st ! first_index) (Some second_index) (fst st)),
                (snd st)[first_index := snd st ! second_index,
                         second_index := snd st ! first_index])
      else Inl OutOfRange)"

text \<open>
  \<^verbatim>\<open>SiftUp\<close>: the loop carries \<open>index\<close> and \<open>new_index\<close>. The swapping branch moves
  \<open>index\<close> to the parent and leaves \<open>new_index\<close> as it is; the other branch stores
  \<open>index\<close> in \<open>new_index\<close> and sets \<open>index\<close> to 0, which ends the loop.
\<close>

function SiftUp_loop ::
  "('a, 's) compare \<Rightarrow> ('a, 's) observer \<Rightarrow> nat \<Rightarrow> nat \<Rightarrow> 's \<times> 'a list
     \<Rightarrow> error + nat \<times> 's \<times> 'a list" where
  "SiftUp_loop compare observer index new_index st =
     (if index \<noteq> 0 then
        (case CompareElements compare st index (Parent index) of
           Inl e \<Rightarrow> Inl e
         | Inr True \<Rightarrow>
             (case SwapElements observer st index (Parent index) of
                Inl e \<Rightarrow> Inl e
              | Inr st' \<Rightarrow> SiftUp_loop compare observer (Parent index) new_index st')
         | Inr False \<Rightarrow> SiftUp_loop compare observer 0 index st)
      else Inr (new_index, st))"
  by pat_completeness auto
termination
  by (relation "measure (\<lambda>(compare, observer, index, new_index, st). index)")
     (auto simp: Parent_def)

declare SiftUp_loop.simps [simp del]

definition SiftUp ::
  "('a, 's) compare \<Rightarrow> ('a, 's) observer \<Rightarrow> nat \<Rightarrow> 's \<times> 'a list
     \<Rightarrow> error + nat \<times> 's \<times> 'a list" where
  "SiftUp compare observer index st = SiftUp_loop compare observer index index st"

text \<open>
  \<^verbatim>\<open>SiftDown\<close>: the loop runs while \<open>index\<close> has a left son. Setting \<open>index\<close> to
  \<^verbatim>\<open>kNullIndex\<close> ends it, since \<^verbatim>\<open>LeftSon(kNullIndex)\<close> is \<^verbatim>\<open>kNullIndex\<close>; the model
  returns at that point.
\<close>

function SiftDown ::
  "('a, 's) compare \<Rightarrow> ('a, 's) observer \<Rightarrow> nat \<Rightarrow> 's \<times> 'a list \<Rightarrow> error + 's \<times> 'a list" where
  "SiftDown compare observer index st =
     (case LeftSon (snd st) index of
        None \<Rightarrow> Inr st
      | Some left_son \<Rightarrow>
          (case (case RightSon (snd st) index of
                   None \<Rightarrow> Inr left_son
                 | Some right_son \<Rightarrow>
                     (case CompareElements compare st right_son left_son of
                        Inl e \<Rightarrow> Inl e
                      | Inr True \<Rightarrow> Inr right_son
                      | Inr False \<Rightarrow> Inr left_son)) of
             Inl e \<Rightarrow> Inl e
           | Inr best_son_index \<Rightarrow>
               (case CompareElements compare st best_son_index index of
                  Inl e \<Rightarrow> Inl e
                | Inr True \<Rightarrow>
                    (case SwapElements observer st best_son_index index of
                       Inl e \<Rightarrow> Inl e
                     | Inr st' \<Rightarrow> SiftDown compare observer best_son_index st')
                | Inr False \<Rightarrow> Inr st)))"
  by pat_completeness auto
termination
  by (relation "measure (\<lambda>(compare, observer, index, st). length (snd st) - index)")
     (auto simp: SwapElements_def CompareElements_def LeftSon_def RightSon_def
           split: if_splits option.splits sum.splits bool.splits)

declare SiftDown.simps [simp del]

definition push ::
  "('a, 's) compare \<Rightarrow> ('a, 's) observer \<Rightarrow> 'a \<Rightarrow> 's \<times> 'a list
     \<Rightarrow> error + nat \<times> 's \<times> 'a list" where
  "push compare observer v st =
     (let elements = snd st @ [v];
          s = observer v (Some (length elements - 1)) (fst st)
      in SiftUp compare observer (length elements - 1) (s, elements))"

text \<open>
  \<^verbatim>\<open>erase(index)\<close>. On an empty heap \<^verbatim>\<open>this->size() - 1\<close> is \<^verbatim>\<open>kNullIndex\<close>, and for
  \<open>index = kNullIndex\<close> as well \<^verbatim>\<open>SwapElements\<close> reads outside the vector. The value
  \<^verbatim>\<open>SiftUp\<close> returns is dropped.
\<close>

definition erase ::
  "('a, 's) compare \<Rightarrow> ('a, 's) observer \<Rightarrow> size_t \<Rightarrow> 's \<times> 'a list \<Rightarrow> error + 's \<times> 'a list" where
  "erase compare observer index st =
     (case index of
        None \<Rightarrow> Inl OutOfRange
      | Some i \<Rightarrow>
          if snd st = [] then Inl OutOfRange
          else
            (case SwapElements observer st i (length (snd st) - 1) of
               Inl e \<Rightarrow> Inl e
             | Inr st1 \<Rightarrow>
                 let st2 = (observer (last (snd st1)) kNullIndex (fst st1), butlast (snd st1))
                 in (case SiftUp compare observer i st2 of
                       Inl e \<Rightarrow> Inl e
                     | Inr (new_index, st3) \<Rightarrow> SiftDown compare observer i st3)))"

text \<open>
  \<^verbatim>\<open>erase(index)\<close> as the compiled program runs it. \<^verbatim>\<open>pop_back\<close> lowers the size of
  the vector by one and leaves its storage as it is, so the slot just past the end
  still holds the popped element; \<^verbatim>\<open>operator[]\<close> checks nothing. \<^verbatim>\<open>SiftUp\<close> never asks
  for \<^verbatim>\<open>size()\<close> and runs on that storage, where its read of \<^verbatim>\<open>elements_[index]\<close> for
  \<open>index\<close> the old last slot finds the popped element. \<^verbatim>\<open>SiftDown\<close> asks \<^verbatim>\<open>LeftSon\<close>
  and \<^verbatim>\<open>RightSon\<close>, which know the new size, and works on the elements that remain.
  \<open>erase\<close> above is the same function with every access checked against the size.
\<close>

definition erase_unchecked ::
  "('a, 's) compare \<Rightarrow> ('a, 's) observer \<Rightarrow> size_t \<Rightarrow> 's \<times> 'a list \<Rightarrow> error + 's \<times> 'a list" where
  "erase_unchecked compare observer index st =
     (case index of
        None \<Rightarrow> Inl OutOfRange
      | Some i \<Rightarrow>
          if snd st = [] then Inl OutOfRange
          else
            (case SwapElements observer st i (length (snd st) - 1) of
               Inl e \<Rightarrow> Inl e
             | Inr st1 \<Rightarrow>
                 let storage = (observer (last (snd st1)) kNullIndex (fst st1), snd st1)
                 in (case SiftUp compare observer i storage of
                       Inl e \<Rightarrow> Inl e
                     | Inr (new_index, st3) \<Rightarrow>
                         SiftDown compare observer i (fst st3, butlast (snd st3)))))"

definition top :: "'s \<times> 'a list \<Rightarrow> error + 'a" where
  "top st = (if snd st = [] then Inl OutOfRange else Inr (snd st ! 0))"


section \<open>Memory segments\<close>

text \<open>
  \<^verbatim>\<open>left\<close> and \<open>right\<close> are C++ \<^verbatim>\<open>int\<close>s (32 bits), sizes are \<^verbatim>\<open>size_t\<close> (64 bits).
  The model keeps them as \<open>int\<close> and \<open>nat\<close> and writes every conversion and every
  wrap-around out: \<open>to_int\<close> is the conversion to \<^verbatim>\<open>int\<close>, \<open>to_size_t\<close> the
  conversion to \<^verbatim>\<open>size_t\<close>.
\<close>

definition to_int :: "int \<Rightarrow> int" where
  "to_int x = (x + 2 ^ 31) mod 2 ^ 32 - 2 ^ 31"

definition to_size_t :: "int \<Rightarrow> nat" where
  "to_size_t x = nat (x mod 2 ^ 64)"

record MemorySegment =
  left :: int
  right :: int
  heap_index :: size_t

definition MemorySegment_new :: "int \<Rightarrow> int \<Rightarrow> MemorySegment" where
  "MemorySegment_new l r = \<lparr>left = l, right = r, heap_index = kNullIndex\<rparr>"

definition Size :: "MemorySegment \<Rightarrow> nat" where
  "Size seg =
     (if right seg \<ge> left seg then to_size_t (to_int (right seg - left seg)) else 0)"

definition Unite :: "MemorySegment \<Rightarrow> MemorySegment \<Rightarrow> error + MemorySegment" where
  "Unite seg other =
     (if left seg = right other then Inr (MemorySegment_new (left other) (right seg))
      else if right seg = left other then Inr (MemorySegment_new (left seg) (right other))
      else Inl NotAdjacent)"

text \<open>
  A \<^verbatim>\<open>std::list<MemorySegment>::iterator\<close> is the address of a list node, here a
  number. The list \<^verbatim>\<open>memory_segments_\<close> is the sequence of its nodes (\<open>memory_segments\<close>) together with
  the segment each node holds (\<open>segment_at\<close>); nodes are numbered in the order of
  their creation (\<open>nodes_created\<close>), so the number of an erased node is never used
  again. \<^verbatim>\<open>Iterator(nullptr)\<close> is \<open>None\<close> of \<open>Iterator option\<close>.
\<close>

type_synonym Iterator = nat
type_synonym segments = "Iterator \<Rightarrow> MemorySegment"

definition MemorySegmentSizeCompare :: "(Iterator, segments) compare" where
  "MemorySegmentSizeCompare segs first second =
     (if Size (segs first) = Size (segs second)
      then left (segs first) < left (segs second)
      else Size (segs first) > Size (segs second))"

definition MemorySegmentsHeapObserver :: "(Iterator, segments) observer" where
  "MemorySegmentsHeapObserver seg new_index segs =
     segs(seg := (segs seg)\<lparr>heap_index := new_index\<rparr>)"

section \<open>MemoryManager\<close>

text \<open>
  The fields \<^verbatim>\<open>free_memory_segments_\<close> (the \<^verbatim>\<open>elements_\<close> of the heap) and
  \<^verbatim>\<open>memory_segments_\<close> lose the underscore at the end of their names.
\<close>

record MemoryManager =
  free_memory_segments :: "Iterator list"
  memory_segments :: "Iterator list"
  segment_at :: segments
  nodes_created :: nat

text \<open>\<^verbatim>\<open>std::list::insert(pos, value)\<close> puts the new node before \<open>pos\<close>.\<close>

fun list_insert :: "Iterator \<Rightarrow> Iterator \<Rightarrow> Iterator list \<Rightarrow> Iterator list" where
  "list_insert pos node [] = [node]"
| "list_insert pos node (x # xs) =
     (if x = pos then node # x # xs else x # list_insert pos node xs)"

text \<open>
  \<^verbatim>\<open>--position\<close> and \<^verbatim>\<open>++position\<close>: the node before and the node after
  \<open>position\<close>; \<open>None\<close> when \<open>position\<close> is \<^verbatim>\<open>begin()\<close>, and when the next one is
  \<^verbatim>\<open>end()\<close>.
\<close>

fun prev_iterator :: "Iterator list \<Rightarrow> Iterator \<Rightarrow> Iterator option" where
  "prev_iterator (x # y # xs) position =
     (if y = position then Some x else prev_iterator (y # xs) position)"
| "prev_iterator xs position = None"

fun next_iterator :: "Iterator list \<Rightarrow> Iterator \<Rightarrow> Iterator option" where
  "next_iterator (x # y # xs) position =
     (if x = position then Some y else next_iterator (y # xs) position)"
| "next_iterator xs position = None"

text \<open>
  The calls \<^verbatim>\<open>free_memory_segments_.push\<close> and \<^verbatim>\<open>free_memory_segments_.erase\<close>. The
  manager runs \<^verbatim>\<open>erase\<close> as compiled: its calls return also for the last slot of the
  heap.
\<close>

definition heap_push :: "Iterator \<Rightarrow> MemoryManager \<Rightarrow> error + MemoryManager" where
  "heap_push it m =
     (case push MemorySegmentSizeCompare MemorySegmentsHeapObserver it
             (segment_at m, free_memory_segments m) of
        Inl e \<Rightarrow> Inl e
      | Inr (index, segs, elements) \<Rightarrow>
          Inr (m\<lparr>free_memory_segments := elements, segment_at := segs\<rparr>))"

definition heap_erase :: "size_t \<Rightarrow> MemoryManager \<Rightarrow> error + MemoryManager" where
  "heap_erase index m =
     (case erase_unchecked MemorySegmentSizeCompare MemorySegmentsHeapObserver index
             (segment_at m, free_memory_segments m) of
        Inl e \<Rightarrow> Inl e
      | Inr (segs, elements) \<Rightarrow>
          Inr (m\<lparr>free_memory_segments := elements, segment_at := segs\<rparr>))"

text \<open>The constructor: one segment \<open>[0, memory_size)\<close>, pushed onto the heap.\<close>

definition MemoryManager_new :: "nat \<Rightarrow> error + MemoryManager" where
  "MemoryManager_new memory_size =
     (let initial_memory = MemorySegment_new 0 (to_int (int memory_size));
          m = \<lparr>free_memory_segments = [],
               memory_segments = [0],
               segment_at = (\<lambda>it. MemorySegment_new 0 0)(0 := initial_memory),
               nodes_created = 1\<rparr>
      in heap_push 0 m)"

definition Allocate :: "MemoryManager \<Rightarrow> nat \<Rightarrow> error + Iterator option \<times> MemoryManager" where
  "Allocate m sz =
     (if length (free_memory_segments m) = 0 then Inr (None, m)
      else
        case top (segment_at m, free_memory_segments m) of
          Inl e \<Rightarrow> Inl e
        | Inr max_free \<Rightarrow>
        if max_free \<notin> set (memory_segments m) then Inl InvalidIterator
        else if sz > Size (segment_at m max_free) then Inr (None, m)
        else if sz = Size (segment_at m max_free) then
          (case heap_erase (heap_index (segment_at m max_free)) m of
             Inl e \<Rightarrow> Inl e
           | Inr m' \<Rightarrow> Inr (Some max_free, m'))
        else
          let allocated = nodes_created m;
              new_segment =
                MemorySegment_new (left (segment_at m max_free))
                  (to_int (int ((to_size_t (left (segment_at m max_free)) + sz) mod 2 ^ 64)));
              m1 = m\<lparr>memory_segments := list_insert max_free allocated (memory_segments m),
                     segment_at := (segment_at m)(allocated := new_segment),
                     nodes_created := Suc (nodes_created m)\<rparr>;
              m2 = m1\<lparr>segment_at := (segment_at m1)
                        (max_free := (segment_at m1 max_free)
                                       \<lparr>left := right (segment_at m1 allocated)\<rparr>)\<rparr>
          in (case heap_erase (heap_index (segment_at m2 max_free)) m2 of
                Inl e \<Rightarrow> Inl e
              | Inr m3 \<Rightarrow>
                  (case heap_push max_free m3 of
                     Inl e \<Rightarrow> Inl e
                   | Inr m4 \<Rightarrow> Inr (Some allocated, m4))))"

definition AppendIfFree :: "MemoryManager \<Rightarrow> Iterator \<Rightarrow> Iterator \<Rightarrow> error + MemoryManager" where
  "AppendIfFree m remaining appending =
     (if heap_index (segment_at m appending) \<noteq> kNullIndex then
        (case Unite (segment_at m remaining) (segment_at m appending) of
           Inl e \<Rightarrow> Inl e
         | Inr united \<Rightarrow>
             let m1 = m\<lparr>segment_at := (segment_at m)(remaining := united)\<rparr> in
             (case heap_erase (heap_index (segment_at m1 appending)) m1 of
                Inl e \<Rightarrow> Inl e
              | Inr m2 \<Rightarrow>
                  Inr (m2\<lparr>memory_segments := remove1 appending (memory_segments m2)\<rparr>)))
      else Inr m)"

text \<open>
  \<^verbatim>\<open>Free(position)\<close>. Both neighbours are taken before anything changes;
  \<^verbatim>\<open>position != begin()\<close> holds when there is a node before \<open>position\<close>.
\<close>

definition Free :: "MemoryManager \<Rightarrow> Iterator \<Rightarrow> error + MemoryManager" where
  "Free m position =
     (if position \<notin> set (memory_segments m) then Inl InvalidIterator
      else
        let left_iterator = prev_iterator (memory_segments m) position;
            right_iterator = next_iterator (memory_segments m) position
        in (case (case left_iterator of
                    None \<Rightarrow> Inr m
                  | Some l \<Rightarrow> AppendIfFree m position l) of
              Inl e \<Rightarrow> Inl e
            | Inr m1 \<Rightarrow>
                (case (case right_iterator of
                         None \<Rightarrow> Inr m1
                       | Some r \<Rightarrow> AppendIfFree m1 position r) of
                   Inl e \<Rightarrow> Inl e
                 | Inr m2 \<Rightarrow> heap_push position m2)))"

section \<open>The driver\<close>

datatype MemoryManagerQuery = AllocationQuery nat | FreeQuery int

text \<open>
  \<^verbatim>\<open>ReadMemoryManagerQueries\<close>, on the numbers of the stream that follow the count
  (each an \<^verbatim>\<open>int\<close>).
\<close>

definition read_query :: "int \<Rightarrow> MemoryManagerQuery" where
  "read_query query_numeric =
     (if query_numeric \<ge> 0 then AllocationQuery (to_size_t query_numeric)
      else FreeQuery (to_int (- query_numeric - 1)))"

definition ReadMemoryManagerQueries :: "int list \<Rightarrow> MemoryManagerQuery list" where
  "ReadMemoryManagerQueries stream = map read_query stream"

record MemoryManagerAllocationResponse =
  success :: bool
  position :: nat

definition MakeSuccessfulAllocation :: "nat \<Rightarrow> MemoryManagerAllocationResponse" where
  "MakeSuccessfulAllocation p = \<lparr>success = True, position = p\<rparr>"

definition MakeFailedAllocation :: MemoryManagerAllocationResponse where
  "MakeFailedAllocation = \<lparr>success = False, position = 0\<rparr>"

text \<open>
  One round of the loop of \<^verbatim>\<open>RunMemoryManager\<close>, on the manager, the vector
  \<open>results\<close> and the responses so far.
\<close>

type_synonym run_state =
  "MemoryManager \<times> Iterator option list \<times> MemoryManagerAllocationResponse list"

fun run_query :: "run_state \<Rightarrow> nat \<Rightarrow> MemoryManagerQuery \<Rightarrow> error + run_state" where
  "run_query (m, results, responses) query_n (AllocationQuery allocation_size) =
     (case Allocate m allocation_size of
        Inl e \<Rightarrow> Inl e
      | Inr (result, m') \<Rightarrow>
          Inr (m', results[query_n := result],
               responses @
                 [case result of
                    Some it \<Rightarrow> MakeSuccessfulAllocation (to_size_t (left (segment_at m' it)))
                  | None \<Rightarrow> MakeFailedAllocation]))"
| "run_query (m, results, responses) query_n (FreeQuery allocation_query_index) =
     (let results' = results[query_n := None] in
      if 0 \<le> allocation_query_index \<and> nat allocation_query_index < length results' then
        (case results' ! nat allocation_query_index of
           None \<Rightarrow> Inr (m, results', responses)
         | Some it \<Rightarrow>
             (case Free m it of
                Inl e \<Rightarrow> Inl e
              | Inr m' \<Rightarrow> Inr (m', results', responses)))
      else Inl OutOfRange)"

fun run_queries ::
  "run_state \<Rightarrow> nat \<Rightarrow> MemoryManagerQuery list \<Rightarrow> error + run_state" where
  "run_queries st query_n [] = Inr st"
| "run_queries st query_n (query # queries) =
     (case run_query st query_n query of
        Inl e \<Rightarrow> Inl e
      | Inr st' \<Rightarrow> run_queries st' (Suc query_n) queries)"

definition RunMemoryManager ::
  "nat \<Rightarrow> MemoryManagerQuery list \<Rightarrow> error + MemoryManagerAllocationResponse list" where
  "RunMemoryManager memory_size queries =
     (case MemoryManager_new memory_size of
        Inl e \<Rightarrow> Inl e
      | Inr memory_manager \<Rightarrow>
          (case run_queries (memory_manager, replicate (length queries) None, []) 0 queries of
             Inl e \<Rightarrow> Inl e
           | Inr (m, results, responses) \<Rightarrow> Inr responses))"

text \<open>
  \<^verbatim>\<open>OutputMemoryManagerResponses\<close>: one line for each response, \<open>position + 1\<close>
  (a \<^verbatim>\<open>size_t\<close>) or \<open>-1\<close>.
\<close>

definition OutputMemoryManagerResponses :: "MemoryManagerAllocationResponse list \<Rightarrow> int list" where
  "OutputMemoryManagerResponses responses =
     map (\<lambda>response. if success response then int ((position response + 1) mod 2 ^ 64) else - 1)
       responses"

section \<open>Properties of heaps and of manager states\<close>

subsection \<open>Heap order\<close>

text \<open>
  The comparators \<^verbatim>\<open>Heap\<close> is used with are strict weak orders. \<open>c a b\<close> reads
  ``\<open>a\<close> belongs nearer the root than \<open>b\<close>'': a heap is ordered when no element is
  ahead of its parent.
\<close>

definition strict_weak :: "('a \<Rightarrow> 'a \<Rightarrow> bool) \<Rightarrow> bool" where
  "strict_weak c \<longleftrightarrow>
     (\<forall>x y. c x y \<longrightarrow> \<not> c y x) \<and>
     (\<forall>x y z. c x y \<longrightarrow> c y z \<longrightarrow> c x z) \<and>
     (\<forall>x y z. \<not> c x y \<longrightarrow> \<not> c y z \<longrightarrow> \<not> c x z)"

definition heap_ordered :: "('a \<Rightarrow> 'a \<Rightarrow> bool) \<Rightarrow> 'a list \<Rightarrow> bool" where
  "heap_ordered c es \<longleftrightarrow> (\<forall>j. 0 < j \<and> j < length es \<longrightarrow> \<not> c (es ! j) (es ! Parent j))"

text \<open>
  The loops restore the order at one slot \<open>k\<close>. While \<^verbatim>\<open>SiftUp\<close> runs every slot but
  \<open>k\<close> respects its parent; while \<^verbatim>\<open>SiftDown\<close> runs every slot whose parent is not
  \<open>k\<close> does. In both the sons of \<open>k\<close> respect the parent of \<open>k\<close>. After \<^verbatim>\<open>erase\<close> has
  moved the last element to slot \<open>k\<close> both exceptions hold at once (\<open>ordered_around\<close>).
\<close>

definition ordered_but_up :: "('a \<Rightarrow> 'a \<Rightarrow> bool) \<Rightarrow> 'a list \<Rightarrow> nat \<Rightarrow> bool" where
  "ordered_but_up c es k \<longleftrightarrow>
     (\<forall>j. 0 < j \<and> j < length es \<and> j \<noteq> k \<longrightarrow> \<not> c (es ! j) (es ! Parent j)) \<and>
     (\<forall>j. 0 < j \<and> j < length es \<and> Parent j = k \<and> 0 < k \<longrightarrow> \<not> c (es ! j) (es ! Parent k))"

definition ordered_but_down :: "('a \<Rightarrow> 'a \<Rightarrow> bool) \<Rightarrow> 'a list \<Rightarrow> nat \<Rightarrow> bool" where
  "ordered_but_down c es k \<longleftrightarrow>
     (\<forall>j. 0 < j \<and> j < length es \<and> Parent j \<noteq> k \<longrightarrow> \<not> c (es ! j) (es ! Parent j)) \<and>
     (\<forall>j. 0 < j \<and> j < length es \<and> Parent j = k \<and> 0 < k \<longrightarrow> \<not> c (es ! j) (es ! Parent k))"

text \<open>
  The state after \<^verbatim>\<open>SwapElements(i, j)\<close> within bounds, the son that \<^verbatim>\<open>SiftDown\<close>
  compares with, and the properties of the state that every swap keeps.
\<close>

definition swapped :: "('a, 's) observer \<Rightarrow> 's \<times> 'a list \<Rightarrow> nat \<Rightarrow> nat \<Rightarrow> 's \<times> 'a list" where
  "swapped obs st i j =
     (obs (snd st ! j) (Some i) (obs (snd st ! i) (Some j) (fst st)),
      (snd st)[i := snd st ! j, j := snd st ! i])"

definition best_son :: "('a, 's) compare \<Rightarrow> 's \<times> 'a list \<Rightarrow> nat \<Rightarrow> nat" where
  "best_son c st k =
     (if 2 * k + 2 < length (snd st) \<and> c (fst st) (snd st ! (2 * k + 2)) (snd st ! (2 * k + 1))
      then 2 * k + 2 else 2 * k + 1)"

definition swap_closed :: "('a, 's) observer \<Rightarrow> ('s \<times> 'a list \<Rightarrow> bool) \<Rightarrow> bool" where
  "swap_closed obs Q \<longleftrightarrow>
     (\<forall>st i j. i < length (snd st) \<and> j < length (snd st) \<and> Q st \<longrightarrow> Q (swapped obs st i j))"

definition observer_blind :: "('a, 's) compare \<Rightarrow> ('a, 's) observer \<Rightarrow> bool" where
  "observer_blind cmp obs \<longleftrightarrow> (\<forall>a i s. cmp (obs a i s) = cmp s)"

definition ordered_around :: "('a \<Rightarrow> 'a \<Rightarrow> bool) \<Rightarrow> 'a list \<Rightarrow> nat \<Rightarrow> bool" where
  "ordered_around c es k \<longleftrightarrow>
     (\<forall>j. 0 < j \<and> j < length es \<and> j \<noteq> k \<and> Parent j \<noteq> k \<longrightarrow> \<not> c (es ! j) (es ! Parent j)) \<and>
     (\<forall>j. 0 < j \<and> j < length es \<and> Parent j = k \<and> 0 < k \<longrightarrow> \<not> c (es ! j) (es ! Parent k))"

subsection \<open>The heap of free segments\<close>

text \<open>
  The heap of the manager holds iterators, compared by the segments they point to;
  its observer writes \<^verbatim>\<open>heap_index\<close> into the segment. \<open>tracked\<close>: no iterator is held
  twice and each held segment records its own slot. \<open>framed\<close>: what a heap operation
  may change in the store of segments.
\<close>

definition tracked :: "segments \<times> Iterator list \<Rightarrow> bool" where
  "tracked st \<longleftrightarrow>
     distinct (snd st) \<and>
     (\<forall>i. i < length (snd st) \<longrightarrow> heap_index (fst st (snd st ! i)) = Some i)"

definition same_ranges :: "segments \<Rightarrow> segments \<Rightarrow> bool" where
  "same_ranges segs segs' \<longleftrightarrow>
     (\<forall>it. left (segs' it) = left (segs it) \<and> right (segs' it) = right (segs it))"

definition framed :: "segments \<times> Iterator list \<Rightarrow> segments \<times> Iterator list \<Rightarrow> bool" where
  "framed st0 st \<longleftrightarrow>
     mset (snd st) = mset (snd st0) \<and> same_ranges (fst st0) (fst st) \<and>
     (\<forall>it. it \<notin> set (snd st0) \<longrightarrow> fst st it = fst st0 it)"

subsection \<open>Manager states\<close>

text \<open>
  A segment is free when it is in the heap, which the class reads off \<^verbatim>\<open>heap_index\<close>
  (\<^verbatim>\<open>AppendIfFree\<close>). \<open>consistent\<close> collects what the two containers of a manager
  assume of each other.
\<close>

definition is_free :: "MemoryManager \<Rightarrow> Iterator \<Rightarrow> bool" where
  "is_free m it \<longleftrightarrow> heap_index (segment_at m it) \<noteq> kNullIndex"

definition consistent :: "MemoryManager \<Rightarrow> bool" where
  "consistent m \<longleftrightarrow>
     distinct (memory_segments m) \<and>
     (\<forall>it. it \<in> set (memory_segments m) \<longrightarrow> it < nodes_created m) \<and>
     set (free_memory_segments m) \<subseteq> set (memory_segments m) \<and>
     tracked (segment_at m, free_memory_segments m) \<and>
     (\<forall>it. it \<in> set (memory_segments m) \<and> is_free m it \<longrightarrow> it \<in> set (free_memory_segments m)) \<and>
     heap_ordered (MemorySegmentSizeCompare (segment_at m)) (free_memory_segments m)"

text \<open>
  The states of a manager of \<open>memory_size\<close> cells: the constructed one, and those that
  \<^verbatim>\<open>Allocate\<close> and \<^verbatim>\<open>Free\<close> return. \<^verbatim>\<open>Free\<close> is called as its contract demands, on a
  segment of the sequence that is allocated. Every \<^verbatim>\<open>Allocate\<close> call and every such
  \<^verbatim>\<open>Free\<close> call returns (\<open>Allocate_returns\<close>, \<open>Free_returns_reachable\<close>), so these are
  all the states a manager gets into.
\<close>

inductive reachable :: "nat \<Rightarrow> MemoryManager \<Rightarrow> bool" for memory_size :: nat where
  constructed: "MemoryManager_new memory_size = Inr m \<Longrightarrow> reachable memory_size m"
| allocated: "reachable memory_size m \<Longrightarrow> Allocate m sz = Inr (result, m')
     \<Longrightarrow> reachable memory_size m'"
| freed: "reachable memory_size m \<Longrightarrow> it \<in> set (memory_segments m)
     \<Longrightarrow> \<not> is_free m it \<Longrightarrow> Free m it = Inr m'
     \<Longrightarrow> reachable memory_size m'"

text \<open>
  The invariants of the segment sequence: no two neighbours free; every endpoint a
  value of \<^verbatim>\<open>int\<close>; the ranges a partition of \<open>[0, memory_size)\<close>, that is, the first
  starts at 0, each ends where the next starts, the last ends at \<open>memory_size\<close>, and
  the left ends ascend.
\<close>

definition no_adjacent_free :: "MemoryManager \<Rightarrow> bool" where
  "no_adjacent_free m \<longleftrightarrow>
     successively (\<lambda>a b. \<not> (is_free m a \<and> is_free m b)) (memory_segments m)"


definition representable :: "MemoryManager \<Rightarrow> bool" where
  "representable m \<longleftrightarrow>
     (\<forall>it. it \<in> set (memory_segments m) \<longrightarrow>
        to_int (left (segment_at m it)) = left (segment_at m it) \<and>
        to_int (right (segment_at m it)) = right (segment_at m it))"

definition range_of :: "MemoryManager \<Rightarrow> Iterator \<Rightarrow> int \<times> int" where
  "range_of m it = (left (segment_at m it), right (segment_at m it))"

definition ranges :: "MemoryManager \<Rightarrow> (int \<times> int) list" where
  "ranges m = map (range_of m) (memory_segments m)"

definition covers :: "int \<Rightarrow> (int \<times> int) list \<Rightarrow> bool" where
  "covers n rs \<longleftrightarrow>
     rs \<noteq> [] \<and> fst (hd rs) = 0 \<and> snd (last rs) = n \<and>
     successively (\<lambda>a b. snd a = fst b) rs \<and>
     (\<forall>r. r \<in> set rs \<longrightarrow> 0 \<le> fst r \<and> fst r \<le> snd r \<and> snd r \<le> n)"

definition partitions :: "nat \<Rightarrow> MemoryManager \<Rightarrow> bool" where
  "partitions memory_size m \<longleftrightarrow>
     covers (int memory_size) (ranges m) \<and> sorted (map fst (ranges m))"

text \<open>
  The constructor stores \<open>memory_size\<close> as an \<^verbatim>\<open>int\<close>, \<open>to_int (int memory_size)\<close>.
  Where that is not negative the segments partition the cells up to it; where it is
  negative the first segment \<open>[0, to_int (int memory_size))\<close> has \<^verbatim>\<open>Size\<close> 0 and stays
  the only one.
\<close>

definition well_laid :: "nat \<Rightarrow> MemoryManager \<Rightarrow> bool" where
  "well_laid memory_size m \<longleftrightarrow>
     (if 0 \<le> to_int (int memory_size) then covers (to_int (int memory_size)) (ranges m)
      else ranges m = [(0, to_int (int memory_size))])"

text \<open>
  A segment of the sequence is in the heap iff its \<^verbatim>\<open>heap_index\<close> is not
  \<^verbatim>\<open>kNullIndex\<close>, and \<^verbatim>\<open>heap_index\<close> is the slot that holds it.
\<close>

definition heap_membership :: "MemoryManager \<Rightarrow> bool" where
  "heap_membership m \<longleftrightarrow>
     (\<forall>it. it \<in> set (memory_segments m) \<longrightarrow>
        (it \<in> set (free_memory_segments m) \<longleftrightarrow> heap_index (segment_at m it) \<noteq> kNullIndex)) \<and>
     (\<forall>it i. it \<in> set (memory_segments m) \<and> heap_index (segment_at m it) = Some i \<longrightarrow>
        i < length (free_memory_segments m) \<and> free_memory_segments m ! i = it) \<and>
     (\<forall>i. i < length (free_memory_segments m) \<longrightarrow>
        free_memory_segments m ! i \<in> set (memory_segments m) \<and>
        heap_index (segment_at m (free_memory_segments m ! i)) = Some i)"

text \<open>
  States of a manager of 10 cells: as constructed; after \<^verbatim>\<open>Allocate(3)\<close>; and after
  \<^verbatim>\<open>Free\<close> of that handle.
\<close>

definition example_fresh :: MemoryManager where
  "example_fresh =
     \<lparr>free_memory_segments = [0], memory_segments = [0],
      segment_at = (\<lambda>it. MemorySegment_new 0 0)
        (0 := \<lparr>left = 0, right = 10, heap_index = Some 0\<rparr>),
      nodes_created = 1\<rparr>"

definition example_split :: MemoryManager where
  "example_split =
     \<lparr>free_memory_segments = [0], memory_segments = [1, 0],
      segment_at = (\<lambda>it. MemorySegment_new 0 0)
        (0 := \<lparr>left = 3, right = 10, heap_index = Some 0\<rparr>,
         1 := \<lparr>left = 0, right = 3, heap_index = kNullIndex\<rparr>),
      nodes_created = 2\<rparr>"


definition example_merged :: MemoryManager where
  "example_merged =
     \<lparr>free_memory_segments = [1], memory_segments = [1],
      segment_at = (\<lambda>it. MemorySegment_new 0 0)
        (0 := \<lparr>left = 3, right = 10, heap_index = kNullIndex\<rparr>,
         1 := \<lparr>left = 0, right = 10, heap_index = Some 0\<rparr>),
      nodes_created = 2\<rparr>"

text \<open>
  The segment \<^verbatim>\<open>Allocate\<close> is to take: free, of the largest \<^verbatim>\<open>Size\<close>, and the leftmost
  of that size.
\<close>

definition best_fit :: "MemoryManager \<Rightarrow> Iterator \<Rightarrow> bool" where
  "best_fit m best \<longleftrightarrow>
     best \<in> set (memory_segments m) \<and> is_free m best \<and>
     (\<forall>f. f \<in> set (memory_segments m) \<and> is_free m f \<longrightarrow>
        Size (segment_at m f) \<le> Size (segment_at m best) \<and>
        (Size (segment_at m f) = Size (segment_at m best)
           \<longrightarrow> left (segment_at m best) \<le> left (segment_at m f)))"

text \<open>
  What a round trip is to restore: the ranges of the sequence with their free marks,
  and so the ranges that are free. \<open>example_two_free\<close> is the manager of 10 cells after
  \<^verbatim>\<open>Allocate(3)\<close>, \<^verbatim>\<open>Allocate(1)\<close> and \<^verbatim>\<open>Free\<close> of the first handle.
\<close>

definition layout :: "MemoryManager \<Rightarrow> ((int \<times> int) \<times> bool) list" where
  "layout m = map (\<lambda>it. (range_of m it, is_free m it)) (memory_segments m)"

definition free_ranges :: "MemoryManager \<Rightarrow> (int \<times> int) list" where
  "free_ranges m = map (range_of m) (filter (is_free m) (memory_segments m))"

text \<open>The addresses that the free segments cover.\<close>

definition free_addresses :: "MemoryManager \<Rightarrow> int set" where
  "free_addresses m = (\<Union>r \<in> set (free_ranges m). {fst r ..< snd r})"

definition example_two_free :: MemoryManager where
  "example_two_free =
     \<lparr>free_memory_segments = [0, 1], memory_segments = [1, 2, 0],
      segment_at = (\<lambda>it. MemorySegment_new 0 0)
        (0 := \<lparr>left = 4, right = 10, heap_index = Some 0\<rparr>,
         1 := \<lparr>left = 0, right = 3, heap_index = Some 1\<rparr>,
         2 := \<lparr>left = 3, right = 4, heap_index = kNullIndex\<rparr>),
      nodes_created = 3\<rparr>"

text \<open>
  More states of the manager of 10 cells. \<open>example_apart\<close>: after \<^verbatim>\<open>Allocate(3)\<close>,
  \<^verbatim>\<open>Allocate(3)\<close> and \<^verbatim>\<open>Free\<close> of the first handle, with the free segment \<open>[0, 3)\<close> in
  the last of two heap slots; \<open>example_whole\<close>: after \<^verbatim>\<open>Free\<close> of the second handle as
  well. \<open>example_touching\<close>: after \<^verbatim>\<open>Allocate(3)\<close>, \<^verbatim>\<open>Allocate(0)\<close> and \<^verbatim>\<open>Free\<close> of the
  first handle.
\<close>

definition example_apart :: MemoryManager where
  "example_apart =
     \<lparr>free_memory_segments = [0, 1], memory_segments = [1, 2, 0],
      segment_at = (\<lambda>it. MemorySegment_new 0 0)
        (0 := \<lparr>left = 6, right = 10, heap_index = Some 0\<rparr>,
         1 := \<lparr>left = 0, right = 3, heap_index = Some 1\<rparr>,
         2 := \<lparr>left = 3, right = 6, heap_index = kNullIndex\<rparr>),
      nodes_created = 3\<rparr>"

definition example_whole :: MemoryManager where
  "example_whole =
     \<lparr>free_memory_segments = [2], memory_segments = [2],
      segment_at = (\<lambda>it. MemorySegment_new 0 0)
        (0 := \<lparr>left = 6, right = 10, heap_index = kNullIndex\<rparr>,
         1 := \<lparr>left = 0, right = 3, heap_index = kNullIndex\<rparr>,
         2 := \<lparr>left = 0, right = 10, heap_index = Some 0\<rparr>),
      nodes_created = 3\<rparr>"


subsection \<open>Runs of the driver\<close>

text \<open>
  The loop of \<^verbatim>\<open>RunMemoryManager\<close> when \<open>query_n = n\<close>: the manager, the vector
  \<open>results\<close> and the responses after the first \<open>n\<close> queries.
\<close>

definition state_before :: "nat \<Rightarrow> MemoryManagerQuery list \<Rightarrow> nat \<Rightarrow> error + run_state" where
  "state_before memory_size queries n =
     (case MemoryManager_new memory_size of
        Inl e \<Rightarrow> Inl e
      | Inr memory_manager \<Rightarrow>
          run_queries (memory_manager, replicate (length queries) None, []) 0 (take n queries))"

text \<open>
  What request \<open>k\<close> of the stream obtained: the handle that its \<^verbatim>\<open>Allocate\<close> call
  returned; nothing for a failed allocation and for a free request.
\<close>

definition handle_of :: "nat \<Rightarrow> MemoryManagerQuery list \<Rightarrow> nat \<Rightarrow> Iterator option" where
  "handle_of memory_size queries k =
     (if k < length queries then
        (case state_before memory_size queries k of
           Inl e \<Rightarrow> None
         | Inr (m, results, responses) \<Rightarrow>
             (case queries ! k of
                FreeQuery i \<Rightarrow> None
              | AllocationQuery s \<Rightarrow>
                  (case Allocate m s of Inl e \<Rightarrow> None | Inr (result, m') \<Rightarrow> result)))
      else None)"

text \<open>
  The lines that request \<open>n\<close> is to contribute to the output: for an allocation the
  left end of the returned segment plus one, or \<open>-1\<close>; none for a free request.
\<close>

definition line_of :: "nat \<Rightarrow> MemoryManagerQuery list \<Rightarrow> nat \<Rightarrow> int list" where
  "line_of memory_size queries n =
     (case state_before memory_size queries n of
        Inl e \<Rightarrow> []
      | Inr (m, results, responses) \<Rightarrow>
          (case queries ! n of
             FreeQuery i \<Rightarrow> []
           | AllocationQuery s \<Rightarrow>
               (case Allocate m s of
                  Inl e \<Rightarrow> []
                | Inr (None, m') \<Rightarrow> [- 1]
                | Inr (Some it, m') \<Rightarrow> [left (segment_at m' it) + 1])))"

text \<open>
  Request \<open>n\<close> is served as the stream format describes: an allocation request of size
  \<open>s\<close> by \<^verbatim>\<open>Allocate(s)\<close>; a free request for request \<open>k\<close> by \<^verbatim>\<open>Free\<close> on the handle that
  request \<open>k\<close> obtained, and by no operation on the manager when request \<open>k\<close> obtained
  none or is not an earlier request.
\<close>

definition served :: "nat \<Rightarrow> MemoryManagerQuery list \<Rightarrow> nat \<Rightarrow> bool" where
  "served memory_size queries n =
     (case state_before memory_size queries n of
        Inl e \<Rightarrow> False
      | Inr (m, results, responses) \<Rightarrow>
          (case state_before memory_size queries (Suc n) of
             Inl e \<Rightarrow> False
           | Inr (m', results', responses') \<Rightarrow>
               (case queries ! n of
                  AllocationQuery s \<Rightarrow>
                    (case Allocate m s of Inl e \<Rightarrow> False | Inr (result, m1) \<Rightarrow> m' = m1)
                | FreeQuery k \<Rightarrow>
                    (case (if 0 \<le> k \<and> nat k < n then handle_of memory_size queries (nat k)
                           else None) of
                       None \<Rightarrow> m' = m
                     | Some it \<Rightarrow> Free m it = Inr m'))))"

text \<open>
  The streams the driver is written for. Every free request names a request of the
  stream, and none names a request whose handle an earlier free request has freed:
  \<^verbatim>\<open>Free\<close> is never called twice on a handle. A free request takes effect only on a
  request before it, so only those free requests count.
\<close>

definition freed_before :: "MemoryManagerQuery list \<Rightarrow> nat \<Rightarrow> nat \<Rightarrow> bool" where
  "freed_before queries n k \<longleftrightarrow> (\<exists>n'<n. k < n' \<and> queries ! n' = FreeQuery (int k))"

definition in_contract :: "nat \<Rightarrow> MemoryManagerQuery list \<Rightarrow> bool" where
  "in_contract memory_size queries \<longleftrightarrow>
     (\<forall>n<length queries. \<forall>k. queries ! n = FreeQuery k \<longrightarrow>
        0 \<le> k \<and> nat k < length queries \<and>
        (freed_before queries n (nat k) \<longrightarrow> handle_of memory_size queries (nat k) = None))"

text \<open>
  What the loop keeps of the handles in \<open>results\<close>, when \<open>query_n = n\<close>: a handle that
  no free request has freed yet is an allocated segment of the sequence, and two
  requests hold the same handle only if one of them has been freed.
\<close>

definition live :: "nat \<Rightarrow> MemoryManagerQuery list \<Rightarrow> nat \<Rightarrow> MemoryManager \<Rightarrow> bool" where
  "live memory_size queries n m \<longleftrightarrow>
     (\<forall>k<n. \<forall>it. handle_of memory_size queries k = Some it \<and> \<not> freed_before queries n k
        \<longrightarrow> it \<in> set (memory_segments m) \<and> \<not> is_free m it) \<and>
     (\<forall>k<n. \<forall>k'<n. \<forall>it. k \<noteq> k' \<and> handle_of memory_size queries k = Some it \<and>
           handle_of memory_size queries k' = Some it
        \<longrightarrow> freed_before queries n k \<or> freed_before queries n k')"

section \<open>Evaluating the operations\<close>

lemmas heap_eval =
  push_def erase_def SiftUp_def SiftUp_loop.simps SiftDown.simps CompareElements_def
  SwapElements_def Parent_def LeftSon_def RightSon_def Let_def top_def erase_unchecked_def

lemmas manager_eval =
  heap_push_def heap_erase_def MemoryManager_new_def Allocate_def Free_def AppendIfFree_def
  Unite_def Size_def MemorySegment_new_def MemorySegmentSizeCompare_def
  MemorySegmentsHeapObserver_def to_int_def to_size_t_def

section \<open>The heap: what push returns, and erase at the last slot\<close>

text \<open>
  Claim C2: push(v) returns the slot that holds \<open>v\<close> when push returns.
  The code, on a min-heap of numbers that holds 5, with an observer that records each
  element's slot: push(3) appends 3 at slot 1, swaps it with its parent and leaves the
  loop of \<^verbatim>\<open>SiftUp\<close> with \<open>index = 0\<close>, and \<open>new_index\<close> is still 1. The observer
  was told slot 0, the elements are \<open>[3, 5]\<close>, and push returns 1.
\<close>

theorem push_returns_stale_index:
  "(case push (\<lambda>s. (<)) (\<lambda>a i s. s(a := i)) (3 :: nat) (\<lambda>a. kNullIndex, [5]) of
      Inl e \<Rightarrow> False
    | Inr (returned, slot_of, elements) \<Rightarrow>
        returned = 1 \<and> elements = [3, 5] \<and> slot_of 3 = Some 0 \<and> slot_of 5 = Some 1)"
  by (simp add: heap_eval)

text \<open>
  After \<^verbatim>\<open>pop_back\<close> the slot \<open>size - 1\<close> is gone, and \<^verbatim>\<open>SiftUp(index)\<close> reads
  \<^verbatim>\<open>elements_[index]\<close> whenever \<open>index\<close> is not 0: erasing the last slot of a heap of
  two or more elements reads outside the vector.
\<close>

lemma erase_last_slot:
  "2 \<le> length es \<Longrightarrow> erase cmp obs (Some (length es - 1)) (s, es) = Inl OutOfRange"
  by (simp add: heap_eval)

text \<open>
  Claim C6: for every valid index, erase removes the element of that slot and every
  access of erase is within the storage that remains. The code, on the min-heap \<open>[3, 5]\<close>: erase(1) swaps slot 1 with
  itself, pops it, and \<^verbatim>\<open>SiftUp(1)\<close> compares \<^verbatim>\<open>elements_[1]\<close> with its parent in a
  vector of one element.
\<close>

theorem erase_reads_popped_slot:
  "erase (\<lambda>s. (<)) (\<lambda>a i s. s(a := i)) (Some 1)
     ((\<lambda>a. kNullIndex)(3 := Some 0, 5 := Some 1), [3 :: nat, 5]) = Inl OutOfRange"
  using erase_last_slot [of "[3 :: nat, 5]"] by simp

section \<open>Heap order under the sift loops\<close>

subsection \<open>One swap of SiftUp\<close>

lemma Parent_less: "0 < i \<Longrightarrow> Parent i < i"
  by (simp add: Parent_def)

lemma Parent_sons: "0 < j \<Longrightarrow> Parent j = k \<longleftrightarrow> j = 2 * k + 1 \<or> j = 2 * k + 2"
  by (auto simp: Parent_def)

lemma strict_weak_asym: "strict_weak c \<Longrightarrow> c x y \<Longrightarrow> \<not> c y x"
  unfolding strict_weak_def by blast

lemma strict_weak_trans: "strict_weak c \<Longrightarrow> c x y \<Longrightarrow> c y z \<Longrightarrow> c x z"
  unfolding strict_weak_def by blast

lemma strict_weak_negtrans: "strict_weak c \<Longrightarrow> \<not> c x y \<Longrightarrow> \<not> c y z \<Longrightarrow> \<not> c x z"
  unfolding strict_weak_def by blast

lemma strict_weak_below: "strict_weak c \<Longrightarrow> c x p \<Longrightarrow> \<not> c y p \<Longrightarrow> \<not> c y x"
  unfolding strict_weak_def by blast

lemma ordered_but_up_swap:
  assumes sw: "strict_weak c" and k: "0 < k" "k < length es"
    and inv: "ordered_but_up c es k" and ahead: "c (es ! k) (es ! Parent k)"
  shows "ordered_but_up c (es[k := es ! Parent k, Parent k := es ! k]) (Parent k)"
proof -
  define p where "p = Parent k"
  define es' where "es' = es[k := es ! p, p := es ! k]"
  have pk: "p < k" using k by (simp add: p_def Parent_less)
  have nth': "\<And>x. x < length es \<Longrightarrow>
      es' ! x = (if x = p then es ! k else if x = k then es ! p else es ! x)"
    using k pk by (auto simp: es'_def nth_list_update)
  have len: "length es' = length es" by (simp add: es'_def)
  have ord: "\<And>j. 0 < j \<Longrightarrow> j < length es \<Longrightarrow> j \<noteq> k \<Longrightarrow> \<not> c (es ! j) (es ! Parent j)"
    using inv by (auto simp: ordered_but_up_def)
  have grand: "\<And>j. 0 < j \<Longrightarrow> j < length es \<Longrightarrow> Parent j = k \<Longrightarrow> \<not> c (es ! j) (es ! p)"
    using inv k by (auto simp: ordered_but_up_def p_def)
  have one: "\<not> c (es' ! j) (es' ! Parent j)" if j: "0 < j" "j < length es" "j \<noteq> p" for j
  proof -
    have pj: "Parent j < j" using j by (simp add: Parent_less)
    show ?thesis
    proof (cases "j = k")
      case True
      have "es' ! k = es ! p" "es' ! p = es ! k" using nth' [of k] nth' [of p] k pk by auto
      moreover have "\<not> c (es ! p) (es ! k)"
        using strict_weak_asym [OF sw ahead] by (simp add: p_def)
      ultimately show ?thesis using True by (simp add: p_def)
    next
      case jk: False
      have ej: "es' ! j = es ! j" using nth' [of j] j jk by simp
      consider "Parent j = p" | "Parent j = k" | "Parent j \<noteq> p" "Parent j \<noteq> k" by blast
      then show ?thesis
      proof cases
        case 1
        have "\<not> c (es ! j) (es ! p)" using ord [of j] j jk 1 by simp
        then have "\<not> c (es ! j) (es ! k)"
          using strict_weak_below [OF sw, of "es ! k" "es ! p" "es ! j"] ahead
          by (simp add: p_def)
        then show ?thesis using ej 1 nth' [of p] pk k by simp
      next
        case 2
        then show ?thesis using ej grand [of j] j nth' [of k] k pk by simp
      next
        case 3
        then show ?thesis using ej ord [of j] j jk nth' [of "Parent j"] pj by simp
      qed
    qed
  qed
  have two: "\<not> c (es' ! j) (es' ! Parent p)"
    if j: "0 < j" "j < length es" "Parent j = p" "0 < p" for j
  proof -
    have pp: "Parent p < p" using j by (simp add: Parent_less)
    have epp: "es' ! Parent p = es ! Parent p" using nth' [of "Parent p"] pp pk k by simp
    have pord: "\<not> c (es ! p) (es ! Parent p)" using ord [of p] j pk k by simp
    show ?thesis
    proof (cases "j = k")
      case True
      then show ?thesis using epp pord nth' [of k] k pk by simp
    next
      case False
      have jp: "j \<noteq> p" using j Parent_less [of j] by auto
      have "\<not> c (es ! j) (es ! p)" using ord [of j] j False by simp
      then have "\<not> c (es ! j) (es ! Parent p)"
        using strict_weak_negtrans [OF sw _ pord] by blast
      then show ?thesis using epp nth' [of j] j False jp by simp
    qed
  qed
  have "ordered_but_up c es' p"
    unfolding ordered_but_up_def using one two len by simp
  then show ?thesis by (simp add: es'_def p_def)
qed

lemma ordered_but_up_done:
  "ordered_but_up c es k \<Longrightarrow> k = 0 \<or> \<not> c (es ! k) (es ! Parent k) \<Longrightarrow> heap_ordered c es"
  unfolding ordered_but_up_def heap_ordered_def by (cases "k = 0") auto

lemma heap_ordered_but_up:
  assumes "heap_ordered c es" "strict_weak c"
  shows "ordered_but_up c es k"
proof -
  have "\<not> c (es ! j) (es ! Parent k)"
    if "0 < j" "j < length es" "Parent j = k" "0 < k" for j
  proof -
    have "k < j" using that Parent_less [of j] by simp
    then have "\<not> c (es ! k) (es ! Parent k)" "\<not> c (es ! j) (es ! k)"
      using assms(1) that by (auto simp: heap_ordered_def)
    then show ?thesis using strict_weak_negtrans [OF assms(2)] by blast
  qed
  then show ?thesis using assms(1) by (auto simp: ordered_but_up_def heap_ordered_def)
qed

subsection \<open>One swap of SiftDown\<close>

lemma ordered_but_down_swap:
  assumes sw: "strict_weak c" and b: "0 < b" "b < length es" "Parent b = k"
    and inv: "ordered_but_down c es k" and ahead: "c (es ! b) (es ! k)"
    and best: "\<And>j. 0 < j \<Longrightarrow> j < length es \<Longrightarrow> Parent j = k \<Longrightarrow> j \<noteq> b
                 \<Longrightarrow> \<not> c (es ! j) (es ! b)"
  shows "ordered_but_down c (es[b := es ! k, k := es ! b]) b"
proof -
  define es' where "es' = es[b := es ! k, k := es ! b]"
  have kb: "k < b" using b Parent_less [of b] by simp
  have nth': "\<And>x. x < length es \<Longrightarrow>
      es' ! x = (if x = k then es ! b else if x = b then es ! k else es ! x)"
    using b kb by (auto simp: es'_def nth_list_update)
  have len: "length es' = length es" by (simp add: es'_def)
  have ord: "\<And>j. 0 < j \<Longrightarrow> j < length es \<Longrightarrow> Parent j \<noteq> k \<Longrightarrow> \<not> c (es ! j) (es ! Parent j)"
    using inv by (auto simp: ordered_but_down_def)
  have grand: "\<And>j. 0 < j \<Longrightarrow> j < length es \<Longrightarrow> Parent j = k \<Longrightarrow> 0 < k
                 \<Longrightarrow> \<not> c (es ! j) (es ! Parent k)"
    using inv by (auto simp: ordered_but_down_def)
  have one: "\<not> c (es' ! j) (es' ! Parent j)"
    if j: "0 < j" "j < length es" "Parent j \<noteq> b" for j
  proof -
    have pj: "Parent j < j" using j by (simp add: Parent_less)
    consider "j = b" | "j = k" | "j \<noteq> b" "j \<noteq> k" "Parent j = k" | "j \<noteq> b" "j \<noteq> k" "Parent j \<noteq> k"
      by blast
    then show ?thesis
    proof cases
      case 1
      have "es' ! b = es ! k" "es' ! k = es ! b" using nth' [of b] nth' [of k] b kb by auto
      moreover have "\<not> c (es ! k) (es ! b)" using strict_weak_asym [OF sw ahead] .
      ultimately show ?thesis using 1 b by simp
    next
      case 2
      have pk: "Parent k < k" using 2 j by (simp add: Parent_less)
      have "es' ! k = es ! b" using nth' [of k] b kb by simp
      moreover have "es' ! Parent k = es ! Parent k" using nth' [of "Parent k"] pk kb b by simp
      moreover have "\<not> c (es ! b) (es ! Parent k)" using grand [of b] b 2 j by simp
      ultimately show ?thesis using 2 by simp
    next
      case 3
      have "es' ! j = es ! j" using nth' [of j] j 3 by simp
      moreover have "es' ! k = es ! b" using nth' [of k] b kb by simp
      moreover have "\<not> c (es ! j) (es ! b)" using best [of j] j 3 by simp
      ultimately show ?thesis using 3 by simp
    next
      case 4
      have "es' ! j = es ! j" using nth' [of j] j 4 by simp
      moreover have "es' ! Parent j = es ! Parent j"
        using nth' [of "Parent j"] pj j 4 by simp
      ultimately show ?thesis using ord [of j] j 4 by simp
    qed
  qed
  have two: "\<not> c (es' ! j) (es' ! Parent b)"
    if j: "0 < j" "j < length es" "Parent j = b" for j
  proof -
    have bj: "b < j" using j Parent_less [of j] by simp
    have "es' ! j = es ! j" using nth' [of j] j bj kb by simp
    moreover have "es' ! k = es ! b" using nth' [of k] b kb by simp
    moreover have "\<not> c (es ! j) (es ! b)" using ord [of j] j kb by simp
    ultimately show ?thesis using b by simp
  qed
  have "ordered_but_down c es' b"
    unfolding ordered_but_down_def using one two len by simp
  then show ?thesis by (simp add: es'_def)
qed

lemma ordered_but_down_done:
  assumes "ordered_but_down c es k"
    and "\<And>j. 0 < j \<Longrightarrow> j < length es \<Longrightarrow> Parent j = k \<Longrightarrow> \<not> c (es ! j) (es ! k)"
  shows "heap_ordered c es"
  unfolding heap_ordered_def
proof (intro allI impI)
  fix j assume j: "0 < j \<and> j < length es"
  show "\<not> c (es ! j) (es ! Parent j)"
  proof (cases "Parent j = k")
    case True
    then show ?thesis using assms(2) [of j] j by simp
  next
    case False
    then show ?thesis using assms(1) j by (simp add: ordered_but_down_def)
  qed
qed

lemma heap_ordered_but_down:
  assumes "heap_ordered c es" "strict_weak c"
  shows "ordered_but_down c es k"
proof -
  have "\<not> c (es ! j) (es ! Parent k)"
    if "0 < j" "j < length es" "Parent j = k" "0 < k" for j
  proof -
    have "k < j" using that Parent_less [of j] by simp
    then have "\<not> c (es ! k) (es ! Parent k)" "\<not> c (es ! j) (es ! k)"
      using assms(1) that by (auto simp: heap_ordered_def)
    then show ?thesis using strict_weak_negtrans [OF assms(2)] by blast
  qed
  then show ?thesis using assms(1) by (auto simp: ordered_but_down_def heap_ordered_def)
qed

subsection \<open>The loops within bounds\<close>

lemma CompareElements_in:
  "i < length es \<Longrightarrow> j < length es \<Longrightarrow> CompareElements c (s, es) i j = Inr (c s (es ! i) (es ! j))"
  by (simp add: CompareElements_def)

lemma SwapElements_in:
  "i < length (snd st) \<Longrightarrow> j < length (snd st) \<Longrightarrow> SwapElements obs st i j = Inr (swapped obs st i j)"
  by (simp add: SwapElements_def swapped_def)

lemma length_swapped [simp]: "length (snd (swapped obs st i j)) = length (snd st)"
  by (simp add: swapped_def)

lemma SiftUp_loop_zero: "SiftUp_loop c obs 0 n st = Inr (n, st)"
  by (simp add: SiftUp_loop.simps)

lemma SiftUp_loop_out: "0 < k \<Longrightarrow> length (snd st) \<le> k \<Longrightarrow> SiftUp_loop c obs k n st = Inl OutOfRange"
  by (simp add: SiftUp_loop.simps CompareElements_def)

lemma SiftUp_loop_step:
  assumes "0 < k" "k < length (snd st)"
  shows "SiftUp_loop c obs k n st =
           (if c (fst st) (snd st ! k) (snd st ! Parent k)
            then SiftUp_loop c obs (Parent k) n (swapped obs st k (Parent k))
            else Inr (k, st))"
proof -
  have p: "Parent k < length (snd st)" using assms Parent_less [of k] by simp
  show ?thesis
    using assms p
    by (subst SiftUp_loop.simps)
       (simp add: CompareElements_def SwapElements_in SiftUp_loop_zero)
qed

lemma LeftSon_eq: "LeftSon es k = (if 2 * k + 1 < length es then Some (2 * k + 1) else None)"
  by (auto simp: LeftSon_def)

lemma RightSon_eq: "RightSon es k = (if 2 * k + 2 < length es then Some (2 * k + 2) else None)"
  by (auto simp: RightSon_def)

lemma SiftDown_leaf: "length (snd st) \<le> 2 * k + 1 \<Longrightarrow> SiftDown c obs k st = Inr st"
  by (subst SiftDown.simps) (simp add: LeftSon_eq)

lemma SiftDown_step:
  assumes "2 * k + 1 < length (snd st)"
  shows "SiftDown c obs k st =
           (if c (fst st) (snd st ! best_son c st k) (snd st ! k)
            then SiftDown c obs (best_son c st k) (swapped obs st (best_son c st k) k)
            else Inr st)"
  using assms
  by (subst SiftDown.simps)
     (simp add: LeftSon_eq RightSon_eq CompareElements_def SwapElements_in best_son_def)

lemma best_son_bounds:
  "2 * k + 1 < length (snd st) \<Longrightarrow>
     best_son c st k < length (snd st) \<and> k < best_son c st k \<and> Parent (best_son c st k) = k"
  by (auto simp: best_son_def Parent_def)

text \<open>A property of the state that every swap keeps is kept by both loops.\<close>

lemma SiftUp_loop_keeps:
  assumes "swap_closed obs Q"
  shows "Q st \<Longrightarrow> SiftUp_loop c obs k n st = Inr (n', st') \<Longrightarrow> Q st'"
proof (induction k arbitrary: st n rule: less_induct)
  case (less k)
  show ?case
  proof (cases "k = 0")
    case True
    then show ?thesis using less.prems by (simp add: SiftUp_loop_zero)
  next
    case False
    then have k: "0 < k" by simp
    show ?thesis
    proof (cases "k < length (snd st)")
      case False
      then show ?thesis using less.prems k by (simp add: SiftUp_loop_out)
    next
      case True
      have p: "Parent k < k" using k by (rule Parent_less)
      show ?thesis
      proof (cases "c (fst st) (snd st ! k) (snd st ! Parent k)")
        case False
        then show ?thesis using less.prems k True by (simp add: SiftUp_loop_step)
      next
        case ahead: True
        have "Q (swapped obs st k (Parent k))"
          using assms less.prems(1) True p unfolding swap_closed_def
          by (meson less_trans)
        moreover have "SiftUp_loop c obs (Parent k) n (swapped obs st k (Parent k)) = Inr (n', st')"
          using less.prems(2) k True ahead by (simp add: SiftUp_loop_step)
        ultimately show ?thesis using less.IH [OF p] by blast
      qed
    qed
  qed
qed

lemma SiftUp_loop_succeeds:
  "k < length (snd st) \<Longrightarrow> \<exists>r. SiftUp_loop c obs k n st = Inr r"
proof (induction k arbitrary: st n rule: less_induct)
  case (less k)
  show ?case
  proof (cases "k = 0")
    case True
    then show ?thesis by (simp add: SiftUp_loop_zero)
  next
    case False
    then have k: "0 < k" by simp
    have p: "Parent k < k" using k by (rule Parent_less)
    have "\<exists>r. SiftUp_loop c obs (Parent k) n (swapped obs st k (Parent k)) = Inr r"
      using less.IH [OF p, of "swapped obs st k (Parent k)" n] less.prems p by simp
    then show ?thesis using k less.prems by (simp add: SiftUp_loop_step)
  qed
qed

lemma SiftDown_keeps:
  assumes "swap_closed obs Q"
  shows "Q st \<Longrightarrow> SiftDown c obs k st = Inr st' \<Longrightarrow> Q st'"
proof (induction "length (snd st) - k" arbitrary: st k rule: less_induct)
  case less
  show ?case
  proof (cases "2 * k + 1 < length (snd st)")
    case False
    then show ?thesis using less.prems by (simp add: SiftDown_leaf)
  next
    case True
    note bb = best_son_bounds [OF True, of c]
    show ?thesis
    proof (cases "c (fst st) (snd st ! best_son c st k) (snd st ! k)")
      case False
      then show ?thesis using less.prems True by (simp add: SiftDown_step)
    next
      case ahead: True
      let ?b = "best_son c st k"
      have k: "k < length (snd st)" using True by simp
      have "Q (swapped obs st ?b k)"
        using assms less.prems(1) bb k unfolding swap_closed_def by blast
      moreover have "SiftDown c obs ?b (swapped obs st ?b k) = Inr st'"
        using less.prems(2) True ahead by (simp add: SiftDown_step)
      moreover have "length (snd (swapped obs st ?b k)) - ?b < length (snd st) - k"
        using bb by (simp add: diff_less_mono2)
      ultimately show ?thesis using less.hyps by blast
    qed
  qed
qed

lemma SiftDown_succeeds: "\<exists>r. SiftDown c obs k st = Inr r"
proof (induction "length (snd st) - k" arbitrary: st k rule: less_induct)
  case less
  show ?case
  proof (cases "2 * k + 1 < length (snd st)")
    case False
    then show ?thesis by (simp add: SiftDown_leaf)
  next
    case True
    note bb = best_son_bounds [OF True, of c]
    let ?b = "best_son c st k"
    have "length (snd (swapped obs st ?b k)) - ?b < length (snd st) - k"
      using bb by (simp add: diff_less_mono2)
    then have "\<exists>r. SiftDown c obs ?b (swapped obs st ?b k) = Inr r"
      using less.hyps by blast
    then show ?thesis using True by (simp add: SiftDown_step)
  qed
qed

subsection \<open>The loops restore the order\<close>

lemma compare_swapped:
  "observer_blind cmp obs \<Longrightarrow> cmp (fst (swapped obs st i j)) = cmp (fst st)"
  by (simp add: observer_blind_def swapped_def)

lemma snd_swapped: "snd (swapped obs st i j) = (snd st)[i := snd st ! j, j := snd st ! i]"
  by (simp add: swapped_def)

lemma SiftUp_loop_ordered:
  assumes blind: "observer_blind cmp obs"
  shows "strict_weak (cmp (fst st)) \<Longrightarrow> k < length (snd st)
     \<Longrightarrow> ordered_but_up (cmp (fst st)) (snd st) k
     \<Longrightarrow> SiftUp_loop cmp obs k n st = Inr (n', st')
     \<Longrightarrow> heap_ordered (cmp (fst st)) (snd st')"
proof (induction k arbitrary: st n rule: less_induct)
  case (less k)
  show ?case
  proof (cases "k = 0 \<or> \<not> cmp (fst st) (snd st ! k) (snd st ! Parent k)")
    case True
    then have "st' = st"
      using less.prems(2,4) by (cases "k = 0") (auto simp: SiftUp_loop_zero SiftUp_loop_step)
    then show ?thesis using ordered_but_up_done [OF less.prems(3) True] by simp
  next
    case False
    then have k: "0 < k" and ahead: "cmp (fst st) (snd st ! k) (snd st ! Parent k)" by auto
    let ?st = "swapped obs st k (Parent k)"
    have p: "Parent k < k" using k by (rule Parent_less)
    have c: "cmp (fst ?st) = cmp (fst st)" using blind by (rule compare_swapped)
    have "ordered_but_up (cmp (fst ?st)) (snd ?st) (Parent k)"
      unfolding c snd_swapped
      by (rule ordered_but_up_swap [OF less.prems(1) k less.prems(2,3) ahead])
    moreover have "SiftUp_loop cmp obs (Parent k) n ?st = Inr (n', st')"
      using less.prems(2,4) k ahead by (simp add: SiftUp_loop_step)
    moreover have "Parent k < length (snd ?st)" using p less.prems(2) by simp
    ultimately have "heap_ordered (cmp (fst ?st)) (snd st')"
      using less.IH [OF p, of ?st n] less.prems(1) c by simp
    then show ?thesis by (simp add: c)
  qed
qed

lemma best_son_best:
  assumes sw: "strict_weak (c (fst st))" and "2 * k + 1 < length (snd st)"
    and j: "0 < j" "j < length (snd st)" "Parent j = k" "j \<noteq> best_son c st k"
  shows "\<not> c (fst st) (snd st ! j) (snd st ! best_son c st k)"
proof -
  have "j = 2 * k + 1 \<or> j = 2 * k + 2" using j Parent_sons [of j k] by simp
  then show ?thesis
    using j strict_weak_asym [OF sw, of "snd st ! (2 * k + 2)" "snd st ! (2 * k + 1)"]
    by (auto simp: best_son_def split: if_splits)
qed

lemma SiftDown_ordered:
  assumes blind: "observer_blind cmp obs"
  shows "strict_weak (cmp (fst st))
     \<Longrightarrow> ordered_but_down (cmp (fst st)) (snd st) k
     \<Longrightarrow> SiftDown cmp obs k st = Inr st'
     \<Longrightarrow> heap_ordered (cmp (fst st)) (snd st')"
proof (induction "length (snd st) - k" arbitrary: st k rule: less_induct)
  case less
  show ?case
  proof (cases "2 * k + 1 < length (snd st)")
    case False
    then have "st' = st" using less.prems by (simp add: SiftDown_leaf)
    moreover have "\<And>j. 0 < j \<Longrightarrow> j < length (snd st) \<Longrightarrow> Parent j \<noteq> k"
      using False by (auto simp: Parent_sons)
    ultimately show ?thesis
      using ordered_but_down_done [OF less.prems(2)] by blast
  next
    case True
    let ?b = "best_son cmp st k"
    note bb = best_son_bounds [OF True, of cmp]
    note best = best_son_best [of cmp st k, OF less.prems(1) True]
    show ?thesis
    proof (cases "cmp (fst st) (snd st ! ?b) (snd st ! k)")
      case False
      then have "st' = st" using less.prems True by (simp add: SiftDown_step)
      moreover have "\<not> cmp (fst st) (snd st ! j) (snd st ! k)"
        if "0 < j" "j < length (snd st)" "Parent j = k" for j
      proof (cases "j = ?b")
        case True
        then show ?thesis using False by simp
      next
        case ne: False
        show ?thesis
          using strict_weak_negtrans [OF less.prems(1) best [OF that ne] False] .
      qed
      ultimately show ?thesis
        using ordered_but_down_done [OF less.prems(2)] by blast
    next
      case ahead: True
      let ?st = "swapped obs st ?b k"
      have c: "cmp (fst ?st) = cmp (fst st)" using blind by (rule compare_swapped)
      have b0: "0 < ?b" using bb by simp
      have "ordered_but_down (cmp (fst ?st)) (snd ?st) ?b"
        unfolding c snd_swapped
        using ordered_but_down_swap [OF less.prems(1) b0 _ _ less.prems(2) ahead] bb best
        by blast
      moreover have "SiftDown cmp obs ?b ?st = Inr st'"
        using less.prems(3) True ahead by (simp add: SiftDown_step)
      moreover have "length (snd ?st) - ?b < length (snd st) - k"
        using bb by (simp add: diff_less_mono2)
      ultimately have "heap_ordered (cmp (fst ?st)) (snd st')"
        using less.hyps [of ?st ?b] less.prems(1) c by simp
      then show ?thesis by (simp add: c)
    qed
  qed
qed

subsection \<open>What the swaps keep\<close>

lemma heap_ordered_around:
  "heap_ordered c es \<Longrightarrow> strict_weak c \<Longrightarrow> ordered_around c es k"
  using heap_ordered_but_up [of c es k]
  by (simp add: ordered_around_def ordered_but_up_def)

lemma ordered_around_up:
  assumes sw: "strict_weak c" and "ordered_around c es k" "0 < k" "c (es ! k) (es ! Parent k)"
  shows "ordered_but_up c es k"
proof -
  have "\<not> c (es ! j) (es ! Parent j)"
    if "0 < j" "j < length es" "j \<noteq> k" for j
  proof (cases "Parent j = k")
    case True
    then have "\<not> c (es ! j) (es ! Parent k)"
      using assms that by (simp add: ordered_around_def)
    then show ?thesis
      using strict_weak_below [OF sw assms(4)] True by simp
  next
    case False
    then show ?thesis using assms that by (simp add: ordered_around_def)
  qed
  then show ?thesis using assms(2) by (simp add: ordered_around_def ordered_but_up_def)
qed

lemma ordered_around_down:
  assumes "ordered_around c es k" "k = 0 \<or> \<not> c (es ! k) (es ! Parent k)"
  shows "ordered_but_down c es k"
proof -
  have "\<not> c (es ! j) (es ! Parent j)"
    if "0 < j" "j < length es" "Parent j \<noteq> k" for j
  proof (cases "j = k")
    case True
    then show ?thesis using assms(2) that by simp
  next
    case False
    then show ?thesis using assms(1) that by (simp add: ordered_around_def)
  qed
  then show ?thesis using assms(1) by (simp add: ordered_around_def ordered_but_down_def)
qed

lemma ordered_around_moved:
  assumes "ordered_around c es k" "Suc k < length es"
  shows "ordered_around c ((butlast es)[k := last es]) k"
proof -
  let ?es = "(butlast es)[k := last es]"
  have nth': "?es ! j = es ! j" if "j < length es - 1" "j \<noteq> k" for j
    using that by (simp add: nth_butlast)
  have len: "length ?es = length es - 1" by simp
  have one: "\<not> c (?es ! j) (?es ! Parent j)"
    if j: "0 < j" "j < length es - 1" "j \<noteq> k" "Parent j \<noteq> k" for j
  proof -
    have "Parent j < length es - 1" using Parent_less [of j] j by simp
    then show ?thesis using nth' [of j] nth' [of "Parent j"] j assms(1)
      by (simp add: ordered_around_def)
  qed
  have two: "\<not> c (?es ! j) (?es ! Parent k)"
    if j: "0 < j" "j < length es - 1" "Parent j = k" "0 < k" for j
  proof -
    have "k < j" using Parent_less [of j] j by simp
    moreover have "Parent k < k" using j by (simp add: Parent_less)
    ultimately show ?thesis using nth' [of j] nth' [of "Parent k"] j assms
      by (simp add: ordered_around_def)
  qed
  show ?thesis unfolding ordered_around_def len using one two by blast
qed

lemma same_ranges_refl [simp]: "same_ranges s s"
  by (simp add: same_ranges_def)

lemma same_ranges_trans: "same_ranges a b \<Longrightarrow> same_ranges b c \<Longrightarrow> same_ranges a c"
  by (simp add: same_ranges_def)

lemma same_ranges_observer [simp]: "same_ranges s (MemorySegmentsHeapObserver a i s)"
  by (simp add: same_ranges_def MemorySegmentsHeapObserver_def)

lemma compare_same_ranges:
  "same_ranges s s' \<Longrightarrow> MemorySegmentSizeCompare s' = MemorySegmentSizeCompare s"
  by (auto simp: same_ranges_def MemorySegmentSizeCompare_def Size_def fun_eq_iff)

lemma observer_blind_segments:
  "observer_blind MemorySegmentSizeCompare MemorySegmentsHeapObserver"
  by (simp add: observer_blind_def compare_same_ranges)

lemma strict_weak_compare: "strict_weak (MemorySegmentSizeCompare segs)"
  unfolding strict_weak_def MemorySegmentSizeCompare_def
  by (intro conjI allI impI; simp split: if_splits)

lemma framed_refl [simp]: "framed st st"
  by (simp add: framed_def)

lemma swap_closed_framed: "swap_closed MemorySegmentsHeapObserver (framed st0)"
proof -
  have "framed st0 (swapped MemorySegmentsHeapObserver st i j)"
    if "i < length (snd st)" "j < length (snd st)" "framed st0 st" for st i j
  proof -
    have m: "mset (snd st) = mset (snd st0)" using that by (simp add: framed_def)
    have "set (snd st) = set (snd st0)" using m by (rule mset_eq_setD)
    then have "snd st ! i \<in> set (snd st0)" "snd st ! j \<in> set (snd st0)"
      using that nth_mem by auto
    then show ?thesis
      using that
      by (auto simp: framed_def swapped_def mset_swap same_ranges_def MemorySegmentsHeapObserver_def)
  qed
  then show ?thesis by (simp add: swap_closed_def)
qed

lemma swap_closed_tracked: "swap_closed MemorySegmentsHeapObserver tracked"
proof -
  have "tracked (swapped MemorySegmentsHeapObserver st i j)"
    if ij: "i < length (snd st)" "j < length (snd st)" and t: "tracked st" for st i j
  proof -
    obtain s es where st: "st = (s, es)" by (cases st)
    have d: "distinct es" and sl: "\<And>x. x < length es \<Longrightarrow> heap_index (s (es ! x)) = Some x"
      using t by (auto simp: tracked_def st)
    have "distinct (es[i := es ! j, j := es ! i])"
      using d ij mset_eq_imp_distinct_iff [OF mset_swap [of j es i]] by (simp add: st)
    moreover have "heap_index (fst (swapped MemorySegmentsHeapObserver st i j)
                     (es[i := es ! j, j := es ! i] ! x)) = Some x"
      if x: "x < length es" for x
      using x ij d sl [of x]
      by (auto simp: st swapped_def MemorySegmentsHeapObserver_def nth_list_update
            nth_eq_iff_index_eq)
    ultimately show ?thesis by (simp add: tracked_def st swapped_def)
  qed
  then show ?thesis by (simp add: swap_closed_def)
qed

subsection \<open>push and erase\<close>

lemma push_ok:
  assumes t: "tracked (s, es)" and v: "v \<notin> set es"
    and h: "heap_ordered (MemorySegmentSizeCompare s) es"
  shows "\<exists>k s' es'.
           push MemorySegmentSizeCompare MemorySegmentsHeapObserver v (s, es) = Inr (k, s', es') \<and>
           tracked (s', es') \<and> heap_ordered (MemorySegmentSizeCompare s') es' \<and>
           mset es' = add_mset v (mset es) \<and> same_ranges s s' \<and>
           (\<forall>it. it \<notin> set es \<and> it \<noteq> v \<longrightarrow> s' it = s it)"
proof -
  let ?C = MemorySegmentSizeCompare and ?O = MemorySegmentsHeapObserver
  define st1 where "st1 = (?O v (Some (length es)) s, es @ [v])"
  have p: "push ?C ?O v (s, es) = SiftUp_loop ?C ?O (length es) (length es) st1"
    by (simp add: push_def SiftUp_def st1_def)
  have len: "length es < length (snd st1)" by (simp add: st1_def)
  obtain k st' where r: "SiftUp_loop ?C ?O (length es) (length es) st1 = Inr (k, st')"
    using SiftUp_loop_succeeds [OF len, of ?C ?O "length es"] by auto
  have c1: "?C (fst st1) = ?C s"
    by (simp add: st1_def compare_same_ranges)
  have t1: "tracked st1"
    using t v
    by (auto simp: tracked_def st1_def MemorySegmentsHeapObserver_def nth_append)
  have t': "tracked st'"
    using SiftUp_loop_keeps [OF swap_closed_tracked t1 r] .
  have f': "framed st1 st'"
    using SiftUp_loop_keeps [OF swap_closed_framed _ r, of st1] by simp
  have "ordered_but_up (?C s) (es @ [v]) (length es)"
  proof -
    have "\<not> ?C s ((es @ [v]) ! j) ((es @ [v]) ! Parent j)"
      if "0 < j" "j < length es" for j
      using that h Parent_less [of j] by (simp add: heap_ordered_def nth_append)
    moreover have "Parent j \<noteq> length es" if "0 < j" "j < Suc (length es)" for j
      using that Parent_less [of j] by simp
    ultimately show ?thesis
      unfolding ordered_but_up_def by (auto simp: less_Suc_eq)
  qed
  then have "ordered_but_up (?C (fst st1)) (snd st1) (length es)"
    by (simp add: c1) (simp add: st1_def)
  then have "heap_ordered (?C (fst st1)) (snd st')"
    using SiftUp_loop_ordered [OF observer_blind_segments _ len _ r] strict_weak_compare
    by blast
  moreover have sr: "same_ranges s (fst st')"
    using f' same_ranges_trans [of s "fst st1" "fst st'"]
    by (simp add: framed_def) (simp add: st1_def)
  ultimately have h': "heap_ordered (?C (fst st')) (snd st')"
    using compare_same_ranges [OF sr] c1 by simp
  have m': "mset (snd st') = add_mset v (mset es)"
    using f' by (simp add: framed_def st1_def)
  have o': "fst st' it = s it" if "it \<notin> set es" "it \<noteq> v" for it
    using f' that by (simp add: framed_def st1_def MemorySegmentsHeapObserver_def)
  show ?thesis
    using p r t' h' m' sr o'
    by (cases st') auto
qed

lemma erase_Inr_bounds:
  assumes "erase cmp obs index (s, es) = Inr r"
  shows "\<exists>i. index = Some i \<and> i < length es \<and> (Suc i < length es \<or> length es = 1)"
proof -
  obtain i where i: "index = Some i" using assms by (cases index) (auto simp: erase_def)
  have ne: "es \<noteq> []" using assms i by (auto simp: erase_def)
  have lt: "i < length es"
    using assms i ne by (auto simp: erase_def SwapElements_def split: if_splits)
  have "Suc i < length es \<or> length es = 1"
  proof (rule ccontr)
    assume "\<not> (Suc i < length es \<or> length es = 1)"
    then have "2 \<le> length es" "i = length es - 1" using lt by auto
    then show False using erase_last_slot [of es cmp obs s] assms i by simp
  qed
  then show ?thesis using i lt by simp
qed

lemma erase_unfold:
  assumes t: "tracked (s, es)" and i: "i < length es"
  shows "\<exists>st2.
           erase cmp MemorySegmentsHeapObserver (Some i) (s, es) =
             (case SiftUp_loop cmp MemorySegmentsHeapObserver i i st2 of
                Inl e \<Rightarrow> Inl e
              | Inr (new_index, st3) \<Rightarrow> SiftDown cmp MemorySegmentsHeapObserver i st3) \<and>
           tracked st2 \<and> snd st2 = (butlast es)[i := last es] \<and>
           add_mset (es ! i) (mset (snd st2)) = mset es \<and> es ! i \<notin> set (snd st2) \<and>
           same_ranges s (fst st2) \<and> heap_index (fst st2 (es ! i)) = kNullIndex \<and>
           (\<forall>it. it \<notin> set es \<longrightarrow> fst st2 it = s it)"
proof -
  let ?O = MemorySegmentsHeapObserver
  let ?n = "length es - 1"
  have ne: "es \<noteq> []" using i by auto
  define st1 where "st1 = swapped ?O (s, es) i ?n"
  define st2 where "st2 = (?O (last (snd st1)) kNullIndex (fst st1), butlast (snd st1))"
  have sw: "SwapElements ?O (s, es) i ?n = Inr st1"
    using i ne by (simp add: SwapElements_in st1_def)
  have e: "erase cmp ?O (Some i) (s, es) =
             (case SiftUp_loop cmp ?O i i st2 of
                Inl e \<Rightarrow> Inl e
              | Inr (new_index, st3) \<Rightarrow> SiftDown cmp ?O i st3)"
    using ne sw by (simp add: erase_def st2_def SiftUp_def)
  have last1: "last (snd st1) = es ! i"
    using i ne by (simp add: st1_def swapped_def last_conv_nth)
  have es2: "snd st2 = (butlast es)[i := last es]"
  proof (cases "Suc i < length es")
    case True
    then have "i \<noteq> length es - 1" "last es = es ! (length es - 1)"
      using ne by (auto simp: last_conv_nth)
    then show ?thesis
      by (simp add: st2_def st1_def swapped_def butlast_list_update)
  next
    case False
    then have "i = length es - 1" using i by simp
    then show ?thesis by (simp add: st2_def st1_def swapped_def list_update_beyond)
  qed
  have m1: "mset (snd st1) = mset es"
    using i ne by (simp add: st1_def swapped_def mset_swap)
  have "snd st1 \<noteq> []" using ne by (simp add: st1_def swapped_def)
  then have app: "snd st1 = butlast (snd st1) @ [last (snd st1)]" by simp
  then have "mset (snd st1) = add_mset (last (snd st1)) (mset (butlast (snd st1)))"
    by (metis mset.simps(2) mset_append union_mset_add_mset_right add.right_neutral mset.simps(1))
  then have m2: "add_mset (es ! i) (mset (snd st2)) = mset es"
    using m1 last1 by (simp add: st2_def)
  have t1: "tracked st1"
    using swap_closed_tracked t i ne unfolding swap_closed_def st1_def
    by (metis diff_less length_greater_0_conv snd_conv zero_less_one)
  have d2: "distinct (snd st2)"
    using t1 by (simp add: tracked_def st2_def distinct_butlast)
  have "distinct (butlast (snd st1) @ [last (snd st1)])" using t1 app by (simp add: tracked_def)
  then have notin: "es ! i \<notin> set (snd st2)"
    using last1 by (simp add: st2_def)
  have fs2: "fst st2 = ?O (es ! i) kNullIndex (?O (es ! ?n) (Some i) (?O (es ! i) (Some ?n) s))"
    by (simp add: st2_def last1) (simp add: st1_def swapped_def)
  have sl2: "heap_index (fst st2 (snd st2 ! x)) = Some x" if x: "x < length (snd st2)" for x
  proof -
    have x1: "x < length (snd st1)" using x by (simp add: st2_def)
    have "snd st2 ! x = snd st1 ! x" using x by (simp add: st2_def nth_butlast)
    moreover have "snd st2 ! x \<noteq> es ! i" using notin x nth_mem by metis
    moreover have "heap_index (fst st1 (snd st1 ! x)) = Some x"
      using t1 x1 by (simp add: tracked_def)
    ultimately show ?thesis by (simp add: st2_def last1 MemorySegmentsHeapObserver_def)
  qed
  have t2: "tracked st2" using d2 sl2 by (simp add: tracked_def)
  have sr2: "same_ranges s (fst st2)"
    by (simp add: fs2 same_ranges_def MemorySegmentsHeapObserver_def)
  have gone2: "heap_index (fst st2 (es ! i)) = kNullIndex"
    by (simp add: fs2 MemorySegmentsHeapObserver_def)
  have out2: "fst st2 it = s it" if "it \<notin> set es" for it
  proof -
    have "it \<noteq> es ! i" "it \<noteq> es ! ?n" using that i ne nth_mem [of i es] nth_mem [of ?n es] by auto
    then show ?thesis
      by (simp add: fs2 MemorySegmentsHeapObserver_def)
  qed
  show ?thesis using e t2 es2 m2 notin sr2 gone2 out2 by blast
qed

lemma erase_keeps_tracked:
  assumes t: "tracked (s, es)" and r: "erase cmp MemorySegmentsHeapObserver index (s, es) = Inr st'"
  shows "\<exists>i. index = Some i \<and> i < length es \<and> tracked st' \<and>
           add_mset (es ! i) (mset (snd st')) = mset es \<and> es ! i \<notin> set (snd st') \<and>
           heap_index (fst st' (es ! i)) = kNullIndex"
proof -
  let ?O = MemorySegmentsHeapObserver
  obtain i where i: "index = Some i" "i < length es"
    using erase_Inr_bounds [OF r] by blast
  obtain st2 where u: "erase cmp ?O (Some i) (s, es) =
             (case SiftUp_loop cmp ?O i i st2 of
                Inl e \<Rightarrow> Inl e
              | Inr (new_index, st3) \<Rightarrow> SiftDown cmp ?O i st3)"
    "tracked st2" "add_mset (es ! i) (mset (snd st2)) = mset es" "es ! i \<notin> set (snd st2)"
    "heap_index (fst st2 (es ! i)) = kNullIndex"
    using erase_unfold [OF t i(2), of cmp] by blast
  obtain k st3 where up: "SiftUp_loop cmp ?O i i st2 = Inr (k, st3)"
    and down: "SiftDown cmp ?O i st3 = Inr st'"
    using r u(1) i(1) by (auto split: sum.splits)
  have t': "tracked st'"
    using SiftDown_keeps [OF swap_closed_tracked SiftUp_loop_keeps [OF swap_closed_tracked u(2) up] down] .
  have f': "framed st2 st'"
    using SiftDown_keeps [OF swap_closed_framed SiftUp_loop_keeps [OF swap_closed_framed _ up] down]
    by simp
  have "set (snd st') = set (snd st2)" using f' by (metis framed_def mset_eq_setD)
  then show ?thesis using i t' f' u(3,4,5) by (simp add: framed_def)
qed

lemma push_keeps_tracked:
  assumes t: "tracked (s, es)" and v: "v \<notin> set es"
    and r: "push cmp MemorySegmentsHeapObserver v (s, es) = Inr (k, st')"
  shows "tracked st' \<and> mset (snd st') = add_mset v (mset es)"
proof -
  let ?O = MemorySegmentsHeapObserver
  define st1 where "st1 = (?O v (Some (length es)) s, es @ [v])"
  have p: "SiftUp_loop cmp ?O (length es) (length es) st1 = Inr (k, st')"
    using r by (simp add: push_def SiftUp_def st1_def)
  have t1: "tracked st1"
    using t v by (auto simp: tracked_def st1_def MemorySegmentsHeapObserver_def nth_append)
  have "framed st1 st'" using SiftUp_loop_keeps [OF swap_closed_framed _ p, of st1] by simp
  then show ?thesis
    using SiftUp_loop_keeps [OF swap_closed_tracked t1 p] by (simp add: framed_def st1_def)
qed

lemma erase_ok:
  assumes t: "tracked (s, es)" and i: "i < length es" "Suc i < length es \<or> length es = 1"
    and h: "ordered_around (MemorySegmentSizeCompare s) es i"
  shows "\<exists>s' es'.
           erase MemorySegmentSizeCompare MemorySegmentsHeapObserver (Some i) (s, es) = Inr (s', es') \<and>
           tracked (s', es') \<and> heap_ordered (MemorySegmentSizeCompare s') es' \<and>
           add_mset (es ! i) (mset es') = mset es \<and> same_ranges s s' \<and>
           heap_index (s' (es ! i)) = kNullIndex \<and>
           (\<forall>it. it \<notin> set es \<longrightarrow> s' it = s it)"
proof -
  let ?C = MemorySegmentSizeCompare and ?O = MemorySegmentsHeapObserver
  obtain st2 where e: "erase ?C ?O (Some i) (s, es) =
             (case SiftUp_loop ?C ?O i i st2 of
                Inl e \<Rightarrow> Inl e
              | Inr (new_index, st3) \<Rightarrow> SiftDown ?C ?O i st3)"
    and t2: "tracked st2" and es2: "snd st2 = (butlast es)[i := last es]"
    and m2: "add_mset (es ! i) (mset (snd st2)) = mset es" and notin: "es ! i \<notin> set (snd st2)"
    and sr2: "same_ranges s (fst st2)" and gone2: "heap_index (fst st2 (es ! i)) = kNullIndex"
    and out2: "\<And>it. it \<notin> set es \<Longrightarrow> fst st2 it = s it"
    using erase_unfold [OF t i(1), of ?C] by blast
  have c2: "?C (fst st2) = ?C s" using compare_same_ranges [OF sr2] .
  have sub2: "set (snd st2) \<subseteq> set es"
    using m2 by (metis mset_eq_setD set_mset_add_mset_insert set_mset_mset subset_insertI)
  have final: "\<exists>st'. (case SiftUp_loop ?C ?O i i st2 of
                          Inl e \<Rightarrow> Inl e
                        | Inr (new_index, st3) \<Rightarrow> SiftDown ?C ?O i st3) = Inr st' \<and>
                     tracked st' \<and> framed st2 st' \<and> heap_ordered (?C (fst st2)) (snd st')"
  proof (cases "Suc i < length es")
    case False
    then have "i = 0" "length (snd st2) = 0" using i es2 by auto
    then have "i = 0" "snd st2 = []" by auto
    then show ?thesis
      using t2 by (simp add: SiftUp_loop_zero SiftDown_leaf heap_ordered_def)
  next
    case True
    then have i2: "i < length (snd st2)" by (simp add: es2)
    have oa: "ordered_around (?C (fst st2)) (snd st2) i"
      unfolding c2 es2 using ordered_around_moved [OF h True] .
    obtain k st3 where up: "SiftUp_loop ?C ?O i i st2 = Inr (k, st3)"
      using SiftUp_loop_succeeds [OF i2, of ?C ?O i] by auto
    obtain st' where down: "SiftDown ?C ?O i st3 = Inr st'"
      using SiftDown_succeeds [of ?C ?O i st3] by auto
    have t3: "tracked st3" using SiftUp_loop_keeps [OF swap_closed_tracked t2 up] .
    have t': "tracked st'" using SiftDown_keeps [OF swap_closed_tracked t3 down] .
    have f3: "framed st2 st3"
      using SiftUp_loop_keeps [OF swap_closed_framed _ up, of st2] by simp
    have f': "framed st2 st'" using SiftDown_keeps [OF swap_closed_framed f3 down] .
    have c3: "?C (fst st3) = ?C (fst st2)"
      using f3 compare_same_ranges by (simp add: framed_def)
    have "ordered_but_down (?C (fst st3)) (snd st3) i"
    proof (cases "0 < i \<and> ?C (fst st2) (snd st2 ! i) (snd st2 ! Parent i)")
      case True
      then have "ordered_but_up (?C (fst st2)) (snd st2) i"
        using ordered_around_up [OF strict_weak_compare oa] by simp
      then have "heap_ordered (?C (fst st2)) (snd st3)"
        using SiftUp_loop_ordered [OF observer_blind_segments strict_weak_compare i2 _ up]
        by simp
      then show ?thesis
        using heap_ordered_but_down [OF _ strict_weak_compare, of "fst st2" "snd st3" i]
        by (simp add: c3)
    next
      case False
      then have "st3 = st2"
        using up i2 by (cases "i = 0") (auto simp: SiftUp_loop_zero SiftUp_loop_step)
      then show ?thesis using ordered_around_down [OF oa] False by auto
    qed
    then have "heap_ordered (?C (fst st3)) (snd st')"
      using SiftDown_ordered [OF observer_blind_segments strict_weak_compare _ down] by simp
    then show ?thesis using up down t' f' by (simp add: c3)
  qed
  then obtain st' where st': "erase ?C ?O (Some i) (s, es) = Inr st'" "tracked st'"
      "framed st2 st'" "heap_ordered (?C (fst st2)) (snd st')"
    using e by auto
  have sr': "same_ranges s (fst st')"
    using st'(3) sr2 same_ranges_trans by (auto simp: framed_def)
  have "heap_ordered (?C (fst st')) (snd st')"
    using st'(4) compare_same_ranges [OF sr'] c2 by simp
  moreover have "add_mset (es ! i) (mset (snd st')) = mset es"
    using st'(3) m2 by (simp add: framed_def)
  moreover have "heap_index (fst st' (es ! i)) = kNullIndex"
    using st'(3) notin gone2 by (simp add: framed_def)
  moreover have "fst st' it = s it" if "it \<notin> set es" for it
    using st'(3) that sub2 out2 [OF that] by (auto simp: framed_def)
  ultimately show ?thesis
    using st'(1,2) sr' by (cases st') auto
qed

subsection \<open>erase as compiled\<close>

text \<open>
  Below the last slot \<^verbatim>\<open>SiftUp\<close> does not touch the last slot: on the storage that
  keeps the popped element it does what it does on the elements that remain.
\<close>

lemma SiftUp_loop_append:
  "k < length es \<Longrightarrow>
     SiftUp_loop c obs k n (s, es @ [x]) =
       (case SiftUp_loop c obs k n (s, es) of
          Inl e \<Rightarrow> Inl e
        | Inr (n', st') \<Rightarrow> Inr (n', fst st', snd st' @ [x]))"
proof (induction k arbitrary: s es n rule: less_induct)
  case (less k)
  show ?case
  proof (cases "k = 0")
    case True
    then show ?thesis by (simp add: SiftUp_loop_zero)
  next
    case False
    then have k: "0 < k" by simp
    have p: "Parent k < k" using k by (rule Parent_less)
    have pl: "Parent k < length es" using p less.prems by simp
    have sw: "swapped obs (s, es @ [x]) k (Parent k) =
                (fst (swapped obs (s, es) k (Parent k)), snd (swapped obs (s, es) k (Parent k)) @ [x])"
      using less.prems pl by (simp add: swapped_def nth_append list_update_append)
    have l: "Parent k < length (snd (swapped obs (s, es) k (Parent k)))"
      using pl by simp
    show ?thesis
    proof (cases "c s (es ! k) (es ! Parent k)")
      case True
      have "SiftUp_loop c obs k n (s, es @ [x]) =
              SiftUp_loop c obs (Parent k) n (swapped obs (s, es @ [x]) k (Parent k))"
        using True k less.prems pl by (simp add: SiftUp_loop_step nth_append)
      also have "\<dots> = SiftUp_loop c obs (Parent k) n
          (fst (swapped obs (s, es) k (Parent k)), snd (swapped obs (s, es) k (Parent k)) @ [x])"
        by (simp only: sw)
      also have "\<dots> =
          (case SiftUp_loop c obs (Parent k) n
                  (fst (swapped obs (s, es) k (Parent k)), snd (swapped obs (s, es) k (Parent k))) of
             Inl e \<Rightarrow> Inl e
           | Inr (n', st') \<Rightarrow> Inr (n', fst st', snd st' @ [x]))"
        by (rule less.IH [OF p l])
      also have "\<dots> = (case SiftUp_loop c obs k n (s, es) of
                          Inl e \<Rightarrow> Inl e
                        | Inr (n', st') \<Rightarrow> Inr (n', fst st', snd st' @ [x]))"
        using True k less.prems by (simp add: SiftUp_loop_step)
      finally show ?thesis .
    next
      case False
      then show ?thesis
        using k less.prems pl by (simp add: SiftUp_loop_step nth_append)
    qed
  qed
qed

lemma erase_unchecked_inner:
  assumes "Suc i < length es \<or> length es = 1" "i < length es"
  shows "erase_unchecked c obs (Some i) (s, es) = erase c obs (Some i) (s, es)"
proof -
  let ?n = "length es - 1"
  have ne: "es \<noteq> []" using assms(2) by auto
  define st1 where "st1 = swapped obs (s, es) i ?n"
  define s2 where "s2 = obs (last (snd st1)) kNullIndex (fst st1)"
  have sw: "SwapElements obs (s, es) i ?n = Inr st1"
    using assms(2) ne by (simp add: SwapElements_in st1_def)
  have ne1: "snd st1 \<noteq> []" using ne by (simp add: st1_def swapped_def)
  have app: "snd st1 = butlast (snd st1) @ [last (snd st1)]" using ne1 by simp
  have u: "erase_unchecked c obs (Some i) (s, es) =
             (case SiftUp_loop c obs i i (s2, snd st1) of
                Inl e \<Rightarrow> Inl e
              | Inr (new_index, st3) \<Rightarrow> SiftDown c obs i (fst st3, butlast (snd st3)))"
    using ne sw by (simp add: erase_unchecked_def SiftUp_def s2_def)
  have e: "erase c obs (Some i) (s, es) =
             (case SiftUp_loop c obs i i (s2, butlast (snd st1)) of
                Inl e \<Rightarrow> Inl e
              | Inr (new_index, st3) \<Rightarrow> SiftDown c obs i st3)"
    using ne sw by (simp add: erase_def SiftUp_def s2_def)
  show ?thesis
  proof (cases "Suc i < length es")
    case True
    then have "i < length (butlast (snd st1))" by (simp add: st1_def)
    then have "SiftUp_loop c obs i i (s2, butlast (snd st1) @ [last (snd st1)]) =
        (case SiftUp_loop c obs i i (s2, butlast (snd st1)) of
           Inl e \<Rightarrow> Inl e
         | Inr (n', st') \<Rightarrow> Inr (n', fst st', snd st' @ [last (snd st1)]))"
      by (rule SiftUp_loop_append)
    then have "SiftUp_loop c obs i i (s2, snd st1) =
        (case SiftUp_loop c obs i i (s2, butlast (snd st1)) of
           Inl e \<Rightarrow> Inl e
         | Inr (n', st') \<Rightarrow> Inr (n', fst st', snd st' @ [last (snd st1)]))"
      using app by simp
    then show ?thesis unfolding u e by (auto split: sum.splits)
  next
    case False
    then have "i = 0" using assms by auto
    then show ?thesis unfolding u e by (simp add: SiftUp_loop_zero)
  qed
qed

text \<open>
  At the last slot of a heap of two or more elements \<^verbatim>\<open>SiftUp\<close> compares the popped
  element with the parent of its old slot. When it is not ahead of that parent, as in
  an ordered heap, nothing else happens.
\<close>

lemma erase_unchecked_last:
  assumes "2 \<le> length es" "i = length es - 1"
    and "\<not> c (obs (es ! i) kNullIndex (obs (es ! i) (Some i) (obs (es ! i) (Some i) s)))
              (es ! i) (es ! Parent i)"
  shows "erase_unchecked c obs (Some i) (s, es) =
           Inr (obs (es ! i) kNullIndex (obs (es ! i) (Some i) (obs (es ! i) (Some i) s)),
                butlast es)"
proof -
  have ne: "es \<noteq> []" and i: "0 < i" "i < length es" using assms(1,2) by auto
  have l: "last es = es ! i" using ne assms(2) by (simp add: last_conv_nth)
  have sw: "SwapElements obs (s, es) i (length es - 1) =
              Inr (obs (es ! i) (Some i) (obs (es ! i) (Some i) s), es)"
    using i assms(2) by (simp add: SwapElements_def)
  have "length (butlast es) \<le> 2 * i + 1" using assms(2) by simp
  then have down: "SiftDown c obs i (s', butlast es) = Inr (s', butlast es)" for s'
    by (simp add: SiftDown_leaf)
  show ?thesis
    using ne sw i assms(3) down
    by (simp add: erase_unchecked_def SiftUp_def SiftUp_loop_step l)
qed

lemma erase_unchecked_last_tracked:
  assumes t: "tracked (s, es)" and n: "2 \<le> length es" "i = length es - 1"
    and l: "\<not> MemorySegmentSizeCompare s (es ! i) (es ! Parent i)"
  shows "\<exists>s'. erase_unchecked MemorySegmentSizeCompare MemorySegmentsHeapObserver (Some i) (s, es)
                = Inr (s', butlast es) \<and>
           tracked (s', butlast es) \<and> add_mset (es ! i) (mset (butlast es)) = mset es \<and>
           es ! i \<notin> set (butlast es) \<and> same_ranges s s' \<and>
           heap_index (s' (es ! i)) = kNullIndex \<and>
           (\<forall>it. it \<notin> set es \<longrightarrow> s' it = s it)"
proof -
  let ?C = MemorySegmentSizeCompare and ?O = MemorySegmentsHeapObserver
  let ?s' = "?O (es ! i) kNullIndex (?O (es ! i) (Some i) (?O (es ! i) (Some i) s))"
  have i: "i < length es" "0 < i" using n by auto
  have ne: "es \<noteq> []" using i by auto
  have sr: "same_ranges s ?s'"
    by (simp add: same_ranges_def MemorySegmentsHeapObserver_def)
  have c: "?C ?s' = ?C s" using compare_same_ranges [OF sr] .
  have e: "erase_unchecked ?C ?O (Some i) (s, es) = Inr (?s', butlast es)"
    using erase_unchecked_last [OF n(1,2), of ?C ?O s] l by (simp add: c)
  have d: "distinct es" using t by (simp add: tracked_def)
  have li: "last es = es ! i" using ne n(2) by (simp add: last_conv_nth)
  have app: "es = butlast es @ [es ! i]"
    using append_butlast_last_id [OF ne] li by simp
  have "distinct (butlast es @ [es ! i])" using d app by simp
  then have notin: "es ! i \<notin> set (butlast es)" by simp
  have t': "tracked (?s', butlast es)"
  proof -
    have "heap_index (?s' (butlast es ! x)) = Some x" if x: "x < length (butlast es)" for x
    proof -
      have "butlast es ! x \<noteq> es ! i" using notin x nth_mem by metis
      moreover have "butlast es ! x = es ! x" using x by (simp add: nth_butlast)
      moreover have "heap_index (s (es ! x)) = Some x" using t x by (simp add: tracked_def)
      ultimately show ?thesis by (simp add: MemorySegmentsHeapObserver_def)
    qed
    then show ?thesis using d by (simp add: tracked_def distinct_butlast)
  qed
  have m: "add_mset (es ! i) (mset (butlast es)) = mset es"
    by (subst (2) app) simp
  have gone: "heap_index (?s' (es ! i)) = kNullIndex"
    by (simp add: MemorySegmentsHeapObserver_def)
  have out: "?s' it = s it" if "it \<notin> set es" for it
  proof -
    have "it \<noteq> es ! i" using that i nth_mem by metis
    then show ?thesis by (simp add: MemorySegmentsHeapObserver_def)
  qed
  show ?thesis using e t' m notin sr gone out by blast
qed

lemma erase_unchecked_ok:
  assumes t: "tracked (s, es)" and i: "i < length es"
    and h: "ordered_around (MemorySegmentSizeCompare s) es i"
    and l: "Suc i < length es \<or> length es = 1 \<or>
            \<not> MemorySegmentSizeCompare s (es ! i) (es ! Parent i)"
  shows "\<exists>s' es'.
           erase_unchecked MemorySegmentSizeCompare MemorySegmentsHeapObserver (Some i) (s, es)
             = Inr (s', es') \<and>
           tracked (s', es') \<and> heap_ordered (MemorySegmentSizeCompare s') es' \<and>
           add_mset (es ! i) (mset es') = mset es \<and> same_ranges s s' \<and>
           heap_index (s' (es ! i)) = kNullIndex \<and>
           (\<forall>it. it \<notin> set es \<longrightarrow> s' it = s it)"
proof (cases "Suc i < length es \<or> length es = 1")
  case True
  show ?thesis
    unfolding erase_unchecked_inner [OF True i] by (rule erase_ok [OF t i True h])
next
  case False
  let ?C = MemorySegmentSizeCompare
  have n: "2 \<le> length es" "i = length es - 1" using False i by auto
  have "\<not> ?C s (es ! i) (es ! Parent i)" using l False by simp
  from erase_unchecked_last_tracked [OF t n this]
  obtain s' where s': "erase_unchecked ?C MemorySegmentsHeapObserver (Some i) (s, es)
                = Inr (s', butlast es)"
    "tracked (s', butlast es)" "add_mset (es ! i) (mset (butlast es)) = mset es"
    "same_ranges s s'" "heap_index (s' (es ! i)) = kNullIndex"
    "\<forall>it. it \<notin> set es \<longrightarrow> s' it = s it" by blast
  have c: "?C s' = ?C s" using compare_same_ranges [OF s'(4)] .
  have h': "heap_ordered (?C s') (butlast es)"
  proof -
    have "\<not> ?C s (butlast es ! j) (butlast es ! Parent j)"
      if j: "0 < j" "j < length (butlast es)" for j
    proof -
      have "Parent j < j" using j(1) by (rule Parent_less)
      moreover have "j \<noteq> i" "Parent j \<noteq> i" "j < length es" using j n(2) calculation by auto
      ultimately show ?thesis
        using h j by (simp add: ordered_around_def nth_butlast)
    qed
    then show ?thesis by (simp add: heap_ordered_def c)
  qed
  show ?thesis using s' h' by blast
qed

text \<open>
  The heap operations on any heap whose elements record their slots, ordered or not:
  they return and the elements record their slots afterwards. At the last slot of
  two or more, \<^verbatim>\<open>erase\<close> needs the erased element not to be ahead of its parent.
\<close>

lemma push_tracked:
  assumes t: "tracked (s, es)" and v: "v \<notin> set es"
  shows "\<exists>k st'. push MemorySegmentSizeCompare MemorySegmentsHeapObserver v (s, es)
                   = Inr (k, st') \<and>
           tracked st' \<and> set (snd st') = insert v (set es)"
proof -
  let ?C = MemorySegmentSizeCompare and ?O = MemorySegmentsHeapObserver
  define st1 where "st1 = (?O v (Some (length es)) s, es @ [v])"
  have p: "push ?C ?O v (s, es) = SiftUp_loop ?C ?O (length es) (length es) st1"
    by (simp add: push_def SiftUp_def st1_def)
  have len: "length es < length (snd st1)" by (simp add: st1_def)
  obtain k st' where r: "SiftUp_loop ?C ?O (length es) (length es) st1 = Inr (k, st')"
    using SiftUp_loop_succeeds [OF len, of ?C ?O "length es"] by auto
  then have r': "push ?C ?O v (s, es) = Inr (k, st')" using p by simp
  have "mset (snd st') = add_mset v (mset es)"
    using push_keeps_tracked [OF t v r'] by simp
  then have "set (snd st') = insert v (set es)"
    by (metis set_mset_add_mset_insert set_mset_mset)
  then show ?thesis using r' push_keeps_tracked [OF t v r'] by blast
qed

lemma erase_unchecked_tracked:
  assumes t: "tracked (s, es)" and i: "i < length es"
    and l: "Suc i = length es \<longrightarrow>
              i = 0 \<or> \<not> MemorySegmentSizeCompare s (es ! i) (es ! Parent i)"
  shows "\<exists>st'. erase_unchecked MemorySegmentSizeCompare MemorySegmentsHeapObserver (Some i) (s, es)
                 = Inr st' \<and>
           tracked st' \<and> set (snd st') = set es - {es ! i} \<and>
           heap_index (fst st' (es ! i)) = kNullIndex"
proof (cases "Suc i < length es \<or> length es = 1")
  case True
  let ?C = MemorySegmentSizeCompare and ?O = MemorySegmentsHeapObserver
  obtain st2 where u: "erase ?C ?O (Some i) (s, es) =
             (case SiftUp_loop ?C ?O i i st2 of
                Inl e \<Rightarrow> Inl e
              | Inr (new_index, st3) \<Rightarrow> SiftDown ?C ?O i st3)"
    and es2: "snd st2 = (butlast es)[i := last es]"
    using erase_unfold [OF t i, of ?C] by blast
  have "\<exists>st'. erase ?C ?O (Some i) (s, es) = Inr st'"
  proof (cases "Suc i < length es")
    case True
    then have "i < length (snd st2)" by (simp add: es2)
    then obtain k st3 where "SiftUp_loop ?C ?O i i st2 = Inr (k, st3)"
      using SiftUp_loop_succeeds [of i st2 ?C ?O i] by auto
    moreover obtain st' where "SiftDown ?C ?O i st3 = Inr st'"
      using SiftDown_succeeds [of ?C ?O i st3] by auto
    ultimately show ?thesis using u by simp
  next
    case False
    then have "i = 0" using True i by auto
    moreover obtain st' where "SiftDown ?C ?O 0 st2 = Inr st'"
      using SiftDown_succeeds [of ?C ?O 0 st2] by auto
    ultimately show ?thesis using u by (simp add: SiftUp_loop_zero)
  qed
  then obtain st' where r: "erase ?C ?O (Some i) (s, es) = Inr st'" by blast
  from erase_keeps_tracked [OF t r]
  have k: "tracked st'" "add_mset (es ! i) (mset (snd st')) = mset es"
    "es ! i \<notin> set (snd st')" "heap_index (fst st' (es ! i)) = kNullIndex" by auto
  have "set es = insert (es ! i) (set (snd st'))"
    using k(2) by (metis set_mset_add_mset_insert set_mset_mset)
  then have "set (snd st') = set es - {es ! i}" using k(3) by auto
  then show ?thesis using r k erase_unchecked_inner [OF True i, of ?C ?O s] by simp
next
  case False
  have n: "2 \<le> length es" "i = length es - 1" using False i by auto
  then have "\<not> MemorySegmentSizeCompare s (es ! i) (es ! Parent i)" using l i by auto
  from erase_unchecked_last_tracked [OF t n this]
  obtain s' where s': "erase_unchecked MemorySegmentSizeCompare MemorySegmentsHeapObserver (Some i)
                (s, es) = Inr (s', butlast es)"
    "tracked (s', butlast es)" "add_mset (es ! i) (mset (butlast es)) = mset es"
    "es ! i \<notin> set (butlast es)" "heap_index (s' (es ! i)) = kNullIndex" by blast
  have "set es = insert (es ! i) (set (butlast es))"
    using s'(3) by (metis set_mset_add_mset_insert set_mset_mset)
  then have "set (butlast es) = set es - {es ! i}" using s'(4) by auto
  then show ?thesis using s' by simp
qed

section \<open>The manager\<close>

subsection \<open>Its heap\<close>

lemma compare_cong:
  "left (s' a) = left (s a) \<Longrightarrow> right (s' a) = right (s a) \<Longrightarrow>
   left (s' b) = left (s b) \<Longrightarrow> right (s' b) = right (s b) \<Longrightarrow>
   MemorySegmentSizeCompare s' a b = MemorySegmentSizeCompare s a b"
  by (simp add: MemorySegmentSizeCompare_def Size_def)

lemma tracked_cong:
  "(\<And>it. it \<in> set es \<Longrightarrow> heap_index (s' it) = heap_index (s it)) \<Longrightarrow>
   tracked (s, es) \<Longrightarrow> tracked (s', es)"
  by (simp add: tracked_def)

lemma heap_ordered_cong:
  assumes "\<And>it. it \<in> set es \<Longrightarrow> left (s' it) = left (s it) \<and> right (s' it) = right (s it)"
    and "heap_ordered (MemorySegmentSizeCompare s) es"
  shows "heap_ordered (MemorySegmentSizeCompare s') es"
proof -
  have "MemorySegmentSizeCompare s' (es ! j) (es ! Parent j)
          = MemorySegmentSizeCompare s (es ! j) (es ! Parent j)"
    if "0 < j" "j < length es" for j
  proof -
    have "Parent j < length es" using that Parent_less [of j] by simp
    then show ?thesis using that assms(1) by (intro compare_cong) simp_all
  qed
  then show ?thesis using assms(2) by (simp add: heap_ordered_def)
qed

lemma ordered_around_changed:
  assumes "heap_ordered (MemorySegmentSizeCompare s) es" "distinct es" "k < length es"
    and "\<And>it. it \<in> set es \<Longrightarrow> it \<noteq> es ! k
            \<Longrightarrow> left (s' it) = left (s it) \<and> right (s' it) = right (s it)"
  shows "ordered_around (MemorySegmentSizeCompare s') es k"
proof -
  let ?C = MemorySegmentSizeCompare
  have oa: "ordered_around (?C s) es k"
    using heap_ordered_around [OF assms(1) strict_weak_compare] .
  have same: "?C s' (es ! a) (es ! b) = ?C s (es ! a) (es ! b)"
    if "a < length es" "b < length es" "a \<noteq> k" "b \<noteq> k" for a b
  proof -
    have "es ! a \<noteq> es ! k" "es ! b \<noteq> es ! k"
      using that assms(2,3) by (simp_all add: nth_eq_iff_index_eq)
    then show ?thesis using that assms(4) by (intro compare_cong) simp_all
  qed
  have one: "\<not> ?C s' (es ! j) (es ! Parent j)"
    if j: "0 < j" "j < length es" "j \<noteq> k" "Parent j \<noteq> k" for j
  proof -
    have "Parent j < length es" using j Parent_less [of j] by simp
    then show ?thesis using same [of j "Parent j"] j oa by (simp add: ordered_around_def)
  qed
  have two: "\<not> ?C s' (es ! j) (es ! Parent k)"
    if j: "0 < j" "j < length es" "Parent j = k" "0 < k" for j
  proof -
    have "Parent k < k" "k < j" using j Parent_less [of j] Parent_less [of k] by auto
    then show ?thesis using same [of j "Parent k"] j oa assms(3) by (simp add: ordered_around_def)
  qed
  show ?thesis unfolding ordered_around_def using one two by blast
qed

lemma heap_push_spec:
  assumes t: "tracked (segment_at m, free_memory_segments m)"
    and v: "v \<notin> set (free_memory_segments m)"
    and h: "heap_ordered (MemorySegmentSizeCompare (segment_at m)) (free_memory_segments m)"
  shows "\<exists>m'. heap_push v m = Inr m' \<and>
           memory_segments m' = memory_segments m \<and> nodes_created m' = nodes_created m \<and>
           tracked (segment_at m', free_memory_segments m') \<and>
           heap_ordered (MemorySegmentSizeCompare (segment_at m')) (free_memory_segments m') \<and>
           set (free_memory_segments m') = insert v (set (free_memory_segments m)) \<and>
           same_ranges (segment_at m) (segment_at m') \<and>
           (\<forall>it. it \<notin> set (free_memory_segments m) \<and> it \<noteq> v
                 \<longrightarrow> segment_at m' it = segment_at m it)"
proof -
  obtain k s' es' where r:
    "push MemorySegmentSizeCompare MemorySegmentsHeapObserver v
       (segment_at m, free_memory_segments m) = Inr (k, s', es')"
    "tracked (s', es')" "heap_ordered (MemorySegmentSizeCompare s') es'"
    "mset es' = add_mset v (mset (free_memory_segments m))"
    "same_ranges (segment_at m) s'"
    "\<forall>it. it \<notin> set (free_memory_segments m) \<and> it \<noteq> v \<longrightarrow> s' it = segment_at m it"
    using push_ok [OF t v h] by blast
  have "set es' = insert v (set (free_memory_segments m))"
    using r(4) by (metis set_mset_add_mset_insert set_mset_mset)
  then show ?thesis using r by (simp add: heap_push_def)
qed

lemma heap_erase_spec_slot:
  assumes t: "tracked (segment_at m, free_memory_segments m)"
    and i: "i < length (free_memory_segments m)"
    and h: "ordered_around (MemorySegmentSizeCompare (segment_at m)) (free_memory_segments m) i"
    and l: "Suc i < length (free_memory_segments m) \<or> length (free_memory_segments m) = 1 \<or>
            \<not> MemorySegmentSizeCompare (segment_at m)
                 (free_memory_segments m ! i) (free_memory_segments m ! Parent i)"
  shows "\<exists>m'. heap_erase (Some i) m = Inr m' \<and>
           memory_segments m' = memory_segments m \<and> nodes_created m' = nodes_created m \<and>
           tracked (segment_at m', free_memory_segments m') \<and>
           heap_ordered (MemorySegmentSizeCompare (segment_at m')) (free_memory_segments m') \<and>
           set (free_memory_segments m') =
             set (free_memory_segments m) - {free_memory_segments m ! i} \<and>
           same_ranges (segment_at m) (segment_at m') \<and>
           heap_index (segment_at m' (free_memory_segments m ! i)) = kNullIndex \<and>
           (\<forall>it. it \<notin> set (free_memory_segments m) \<longrightarrow> segment_at m' it = segment_at m it)"
proof -
  let ?es = "free_memory_segments m"
  obtain s' es' where r:
    "erase_unchecked MemorySegmentSizeCompare MemorySegmentsHeapObserver (Some i)
       (segment_at m, ?es) = Inr (s', es')"
    "tracked (s', es')" "heap_ordered (MemorySegmentSizeCompare s') es'"
    "add_mset (?es ! i) (mset es') = mset ?es"
    "same_ranges (segment_at m) s'"
    "heap_index (s' (?es ! i)) = kNullIndex"
    "\<forall>it. it \<notin> set ?es \<longrightarrow> s' it = segment_at m it"
    using erase_unchecked_ok [OF t i h l] by blast
  have "distinct ?es" using t by (simp add: tracked_def)
  then have "?es ! i \<notin> set es'"
    using r(4) by (metis distinct.simps(2) mset.simps(2) mset_eq_imp_distinct_iff)
  moreover have "set ?es = insert (?es ! i) (set es')"
    using r(4) by (metis set_mset_add_mset_insert set_mset_mset)
  ultimately have "set es' = set ?es - {?es ! i}" by auto
  then show ?thesis using r by (simp add: heap_erase_def)
qed

lemma heap_erase_spec:
  assumes t: "tracked (segment_at m, free_memory_segments m)"
    and i: "i < length (free_memory_segments m)"
      "Suc i < length (free_memory_segments m) \<or> length (free_memory_segments m) = 1"
    and h: "ordered_around (MemorySegmentSizeCompare (segment_at m)) (free_memory_segments m) i"
  shows "\<exists>m'. heap_erase (Some i) m = Inr m' \<and>
           memory_segments m' = memory_segments m \<and> nodes_created m' = nodes_created m \<and>
           tracked (segment_at m', free_memory_segments m') \<and>
           heap_ordered (MemorySegmentSizeCompare (segment_at m')) (free_memory_segments m') \<and>
           set (free_memory_segments m') =
             set (free_memory_segments m) - {free_memory_segments m ! i} \<and>
           same_ranges (segment_at m) (segment_at m') \<and>
           heap_index (segment_at m' (free_memory_segments m ! i)) = kNullIndex \<and>
           (\<forall>it. it \<notin> set (free_memory_segments m) \<longrightarrow> segment_at m' it = segment_at m it)"
  using i(2) by (intro heap_erase_spec_slot [OF t i(1) h]) blast

lemma heap_erase_spec_ordered:
  assumes t: "tracked (segment_at m, free_memory_segments m)"
    and i: "i < length (free_memory_segments m)"
    and h: "heap_ordered (MemorySegmentSizeCompare (segment_at m)) (free_memory_segments m)"
  shows "\<exists>m'. heap_erase (Some i) m = Inr m' \<and>
           memory_segments m' = memory_segments m \<and> nodes_created m' = nodes_created m \<and>
           tracked (segment_at m', free_memory_segments m') \<and>
           heap_ordered (MemorySegmentSizeCompare (segment_at m')) (free_memory_segments m') \<and>
           set (free_memory_segments m') =
             set (free_memory_segments m) - {free_memory_segments m ! i} \<and>
           same_ranges (segment_at m) (segment_at m') \<and>
           heap_index (segment_at m' (free_memory_segments m ! i)) = kNullIndex \<and>
           (\<forall>it. it \<notin> set (free_memory_segments m) \<longrightarrow> segment_at m' it = segment_at m it)"
proof (rule heap_erase_spec_slot [OF t i heap_ordered_around [OF h strict_weak_compare]])
  show "Suc i < length (free_memory_segments m) \<or> length (free_memory_segments m) = 1 \<or>
        \<not> MemorySegmentSizeCompare (segment_at m)
             (free_memory_segments m ! i) (free_memory_segments m ! Parent i)"
  proof (cases "i = 0")
    case True
    then have "Suc i < length (free_memory_segments m) \<or> length (free_memory_segments m) = 1"
      using i by (cases "free_memory_segments m") (auto simp: Suc_lessI)
    then show ?thesis by blast
  next
    case False
    then show ?thesis using h i by (simp add: heap_ordered_def)
  qed
qed

subsection \<open>The constructor and Allocate\<close>

lemma MemoryManager_new_eq:
  "MemoryManager_new memory_size =
     Inr \<lparr>free_memory_segments = [0], memory_segments = [0],
          segment_at = (\<lambda>it. MemorySegment_new 0 0)
            (0 := \<lparr>left = 0, right = to_int (int memory_size), heap_index = Some 0\<rparr>),
          nodes_created = 1\<rparr>"
  by (simp add: MemoryManager_new_def heap_push_def push_def SiftUp_def SiftUp_loop_zero
        MemorySegmentsHeapObserver_def MemorySegment_new_def Let_def)

lemma consistent_new: "MemoryManager_new memory_size = Inr m \<Longrightarrow> consistent m"
  by (auto simp: MemoryManager_new_eq consistent_def tracked_def heap_ordered_def is_free_def)

lemma free_iff_heap:
  assumes "consistent m" "it \<in> set (memory_segments m)"
  shows "is_free m it \<longleftrightarrow> it \<in> set (free_memory_segments m)"
proof
  assume "is_free m it"
  then show "it \<in> set (free_memory_segments m)" using assms by (simp add: consistent_def)
next
  assume "it \<in> set (free_memory_segments m)"
  then obtain i where "i < length (free_memory_segments m)" "free_memory_segments m ! i = it"
    by (auto simp: in_set_conv_nth)
  then show "is_free m it" using assms(1) by (auto simp: consistent_def tracked_def is_free_def)
qed

lemma top_facts:
  assumes "consistent m" "free_memory_segments m \<noteq> []"
  shows "free_memory_segments m ! 0 \<in> set (memory_segments m)"
    and "heap_index (segment_at m (free_memory_segments m ! 0)) = Some 0"
    and "free_memory_segments m ! 0 \<in> set (free_memory_segments m)"
  using assms by (auto simp: consistent_def tracked_def)

lemma Allocate_none:
  assumes "free_memory_segments m = [] \<or>
           (free_memory_segments m ! 0 \<in> set (memory_segments m) \<and>
            sz > Size (segment_at m (free_memory_segments m ! 0)))"
  shows "Allocate m sz = Inr (None, m)"
  using assms by (auto simp: Allocate_def Let_def top_def)

lemma Allocate_exact:
  assumes c: "consistent m" and ne: "free_memory_segments m \<noteq> []"
    and sz: "sz = Size (segment_at m (free_memory_segments m ! 0))"
  shows "\<exists>m'. Allocate m sz = Inr (Some (free_memory_segments m ! 0), m') \<and> consistent m' \<and>
           memory_segments m' = memory_segments m \<and> nodes_created m' = nodes_created m \<and>
           set (free_memory_segments m') =
             set (free_memory_segments m) - {free_memory_segments m ! 0} \<and>
           same_ranges (segment_at m) (segment_at m') \<and>
           (\<forall>it. it \<notin> set (free_memory_segments m) \<longrightarrow> segment_at m' it = segment_at m it)"
proof -
  let ?top = "free_memory_segments m ! 0"
  note tf = top_facts [OF c ne]
  have t: "tracked (segment_at m, free_memory_segments m)"
    and h: "heap_ordered (MemorySegmentSizeCompare (segment_at m)) (free_memory_segments m)"
    using c by (simp_all add: consistent_def)
  have i: "0 < length (free_memory_segments m)"
    "Suc 0 < length (free_memory_segments m) \<or> length (free_memory_segments m) = 1"
    using ne by (auto simp: Suc_lessI)
  obtain m' where e: "heap_erase (Some 0) m = Inr m'"
    "memory_segments m' = memory_segments m" "nodes_created m' = nodes_created m"
    "tracked (segment_at m', free_memory_segments m')"
    "heap_ordered (MemorySegmentSizeCompare (segment_at m')) (free_memory_segments m')"
    "set (free_memory_segments m') = set (free_memory_segments m) - {?top}"
    "same_ranges (segment_at m) (segment_at m')"
    "heap_index (segment_at m' ?top) = kNullIndex"
    "\<forall>it. it \<notin> set (free_memory_segments m) \<longrightarrow> segment_at m' it = segment_at m it"
    using heap_erase_spec [OF t i heap_ordered_around [OF h strict_weak_compare]] by blast
  have a: "Allocate m sz = Inr (Some ?top, m')"
    using ne tf sz e(1) by (simp add: Allocate_def Let_def top_def)
  have "it \<in> set (free_memory_segments m')"
    if "it \<in> set (memory_segments m')" "is_free m' it" for it
  proof -
    have "it \<noteq> ?top" using that e(8) by (auto simp: is_free_def)
    moreover have "it \<in> set (free_memory_segments m)"
    proof (rule ccontr)
      assume n: "it \<notin> set (free_memory_segments m)"
      then have "segment_at m' it = segment_at m it" using e(9) by simp
      then have "is_free m it" using that by (simp add: is_free_def)
      then show False using n free_iff_heap [OF c, of it] that e(2) by simp
    qed
    ultimately show ?thesis using e(6) by simp
  qed
  then have "consistent m'"
    using c e unfolding consistent_def by auto
  then show ?thesis using a e by blast
qed

lemma set_list_insert [simp]: "set (list_insert pos node xs) = insert node (set xs)"
  by (induction xs) auto

lemma distinct_list_insert:
  "distinct xs \<Longrightarrow> node \<notin> set xs \<Longrightarrow> distinct (list_insert pos node xs)"
  by (induction xs) auto

lemma list_insert_split:
  "pos \<notin> set xs \<Longrightarrow> list_insert pos node (xs @ pos # ys) = xs @ node # pos # ys"
  by (induction xs) auto

lemma Allocate_split:
  assumes c: "consistent m" and ne: "free_memory_segments m \<noteq> []"
    and sz: "sz < Size (segment_at m (free_memory_segments m ! 0))"
  defines "best \<equiv> free_memory_segments m ! 0"
  defines "n \<equiv> nodes_created m"
  defines "new_right \<equiv> to_int (int ((to_size_t (left (segment_at m best)) + sz) mod 2 ^ 64))"
  shows "\<exists>m'. Allocate m sz = Inr (Some n, m') \<and> consistent m' \<and>
           memory_segments m' = list_insert best n (memory_segments m) \<and>
           nodes_created m' = Suc n \<and>
           set (free_memory_segments m') = set (free_memory_segments m) \<and>
           segment_at m' n = MemorySegment_new (left (segment_at m best)) new_right \<and>
           left (segment_at m' best) = new_right \<and>
           right (segment_at m' best) = right (segment_at m best) \<and>
           (\<forall>it. it \<noteq> n \<and> it \<noteq> best \<longrightarrow>
                 left (segment_at m' it) = left (segment_at m it) \<and>
                 right (segment_at m' it) = right (segment_at m it)) \<and>
           (\<forall>it. it \<notin> set (free_memory_segments m) \<and> it \<noteq> n
                 \<longrightarrow> segment_at m' it = segment_at m it)"
proof -
  let ?C = MemorySegmentSizeCompare
  let ?es = "free_memory_segments m"
  note tf = top_facts [OF c ne, folded best_def]
  have t: "tracked (segment_at m, ?es)" and h: "heap_ordered (?C (segment_at m)) ?es"
    and d: "distinct (memory_segments m)" and sub: "set ?es \<subseteq> set (memory_segments m)"
    and lt: "\<And>it. it \<in> set (memory_segments m) \<Longrightarrow> it < n"
    using c by (simp_all add: consistent_def n_def)
  have n_order: "n \<notin> set (memory_segments m)" using lt by blast
  have n_heap: "n \<notin> set ?es" using n_order sub by blast
  have n_top: "n \<noteq> best" using tf(1) n_order by blast
  define segs2 where "segs2 = (segment_at m)
      (n := MemorySegment_new (left (segment_at m best)) new_right,
       best := (segment_at m best)\<lparr>left := new_right\<rparr>)"
  define m2 where "m2 = m\<lparr>memory_segments := list_insert best n (memory_segments m),
      nodes_created := Suc n, segment_at := segs2\<rparr>"
  have a: "Allocate m sz =
      (case heap_erase (Some 0) m2 of
         Inl e \<Rightarrow> Inl e
       | Inr m3 \<Rightarrow> (case heap_push best m3 of Inl e \<Rightarrow> Inl e | Inr m4 \<Rightarrow> Inr (Some n, m4)))"
    using ne tf sz n_top
    by (simp add: Allocate_def Let_def top_def best_def [symmetric] n_def [symmetric] m2_def segs2_def
          new_right_def MemorySegment_new_def)
  have es2: "free_memory_segments m2 = ?es" and sa2: "segment_at m2 = segs2"
    by (simp_all add: m2_def)
  have t2: "tracked (segment_at m2, free_memory_segments m2)"
    unfolding es2 sa2
    by (rule tracked_cong [OF _ t]) (use n_heap in \<open>auto simp: segs2_def\<close>)
  have i: "0 < length (free_memory_segments m2)"
    "Suc 0 < length (free_memory_segments m2) \<or> length (free_memory_segments m2) = 1"
    using ne by (auto simp: es2 Suc_lessI)
  have oa2: "ordered_around (?C (segment_at m2)) (free_memory_segments m2) 0"
    unfolding es2 sa2
  proof (rule ordered_around_changed [OF h])
    show "distinct ?es" using t by (simp add: tracked_def)
    show "0 < length ?es" using ne by simp
    show "left (segs2 it) = left (segment_at m it) \<and> right (segs2 it) = right (segment_at m it)"
      if "it \<in> set ?es" "it \<noteq> ?es ! 0" for it
      using that n_heap by (auto simp: segs2_def best_def)
  qed
  obtain m3 where e: "heap_erase (Some 0) m2 = Inr m3"
    "memory_segments m3 = memory_segments m2" "nodes_created m3 = nodes_created m2"
    "tracked (segment_at m3, free_memory_segments m3)"
    "heap_ordered (?C (segment_at m3)) (free_memory_segments m3)"
    "set (free_memory_segments m3) = set ?es - {best}"
    "same_ranges segs2 (segment_at m3)"
    "\<forall>it. it \<notin> set ?es \<longrightarrow> segment_at m3 it = segs2 it"
    using heap_erase_spec [OF t2 i oa2] unfolding es2 sa2 best_def by blast
  have v: "best \<notin> set (free_memory_segments m3)" using e(6) by simp
  obtain m4 where p: "heap_push best m3 = Inr m4"
    "memory_segments m4 = memory_segments m3" "nodes_created m4 = nodes_created m3"
    "tracked (segment_at m4, free_memory_segments m4)"
    "heap_ordered (?C (segment_at m4)) (free_memory_segments m4)"
    "set (free_memory_segments m4) = insert best (set (free_memory_segments m3))"
    "same_ranges (segment_at m3) (segment_at m4)"
    "\<forall>it. it \<notin> set (free_memory_segments m3) \<and> it \<noteq> best
          \<longrightarrow> segment_at m4 it = segment_at m3 it"
    using heap_push_spec [OF e(4) v e(5)] by blast
  have alloc: "Allocate m sz = Inr (Some n, m4)" using a e(1) p(1) by simp
  have heap4: "set (free_memory_segments m4) = set ?es" using p(6) e(6) tf(3) by auto
  have order4: "memory_segments m4 = list_insert best n (memory_segments m)"
    using p(2) e(2) by (simp add: m2_def)
  have created4: "nodes_created m4 = Suc n" using p(3) e(3) by (simp add: m2_def)
  have outside: "segment_at m4 it = segs2 it" if "it \<notin> set ?es" for it
  proof -
    have "it \<noteq> best" using that tf(3) by blast
    then show ?thesis using that p(8) e(8) e(6) by simp
  qed
  have ranges: "left (segment_at m4 it) = left (segs2 it) \<and>
                right (segment_at m4 it) = right (segs2 it)" for it
    using e(7) p(7) by (simp add: same_ranges_def)
  have free4: "it \<in> set (free_memory_segments m4)"
    if "it \<in> set (memory_segments m4)" "is_free m4 it" for it
  proof (rule ccontr)
    assume "it \<notin> set (free_memory_segments m4)"
    then have out: "it \<notin> set ?es" using heap4 by simp
    then have s: "segment_at m4 it = segs2 it" by (rule outside)
    show False
    proof (cases "it = n")
      case True
      then show ?thesis using that(2) s n_top
        by (simp add: is_free_def segs2_def MemorySegment_new_def)
    next
      case False
      then have "it \<in> set (memory_segments m)" using that(1) order4 by simp
      moreover have "it \<noteq> best" using out tf(3) by blast
      then have "is_free m it" using that(2) s False by (simp add: is_free_def segs2_def)
      ultimately show ?thesis using out free_iff_heap [OF c] by blast
    qed
  qed
  have "consistent m4"
    unfolding consistent_def
    using order4 created4 heap4 p(4,5) free4 distinct_list_insert [OF d n_order] sub lt
    by (auto simp: less_Suc_eq)
  moreover have "segment_at m4 n = MemorySegment_new (left (segment_at m best)) new_right"
    using outside [OF n_heap] n_top by (simp add: segs2_def)
  moreover have "left (segment_at m4 best) = new_right"
    "right (segment_at m4 best) = right (segment_at m best)"
    using ranges [of best] by (simp_all add: segs2_def)
  moreover have "left (segment_at m4 it) = left (segment_at m it) \<and>
      right (segment_at m4 it) = right (segment_at m it)" if "it \<noteq> n \<and> it \<noteq> best" for it
    using ranges [of it] that by (simp add: segs2_def)
  moreover have "segment_at m4 it = segment_at m it" if "it \<notin> set ?es \<and> it \<noteq> n" for it
  proof -
    have "it \<noteq> best" using that tf(3) by blast
    then show ?thesis using outside [of it] that by (simp add: segs2_def)
  qed
  ultimately show ?thesis using alloc order4 created4 heap4 by blast
qed

subsection \<open>Free\<close>

lemma Allocate_total:
  assumes c: "consistent m"
  shows "\<exists>result m'. Allocate m sz = Inr (result, m') \<and> consistent m'"
proof (cases "free_memory_segments m = []")
  case True
  then show ?thesis using c Allocate_none [of m sz] by auto
next
  case False
  note tf = top_facts [OF c False]
  consider "sz > Size (segment_at m (free_memory_segments m ! 0))"
    | "sz = Size (segment_at m (free_memory_segments m ! 0))"
    | "sz < Size (segment_at m (free_memory_segments m ! 0))" by linarith
  then show ?thesis
  proof cases
    case 1
    then show ?thesis using c tf Allocate_none [of m sz] by auto
  next
    case 2
    then show ?thesis using Allocate_exact [OF c False 2] by blast
  next
    case 3
    then show ?thesis using Allocate_split [OF c False 3] by blast
  qed
qed

lemma prev_iterator_none: "p \<notin> set (tl xs) \<Longrightarrow> prev_iterator xs p = None"
  by (induction xs p rule: prev_iterator.induct) auto

lemma prev_iterator_split:
  "p \<notin> set xs \<Longrightarrow> p \<notin> set ys
     \<Longrightarrow> prev_iterator (xs @ p # ys) p = (if xs = [] then None else Some (last xs))"
proof (induction xs)
  case Nil
  then show ?case by (simp add: prev_iterator_none)
next
  case (Cons x xs)
  then show ?case by (cases xs) auto
qed

lemma next_iterator_split:
  "p \<notin> set xs \<Longrightarrow> next_iterator (xs @ p # ys) p = (if ys = [] then None else Some (hd ys))"
proof (induction xs)
  case Nil
  then show ?case by (cases ys) auto
next
  case (Cons x xs)
  then show ?case by (cases xs) auto
qed

lemma Unite_heap_index: "Unite a b = Inr u \<Longrightarrow> heap_index u = kNullIndex"
  by (auto simp: Unite_def MemorySegment_new_def split: if_splits)

lemma AppendIfFree_not_free: "\<not> is_free m a \<Longrightarrow> AppendIfFree m p a = Inr m"
  by (simp add: AppendIfFree_def is_free_def)

lemma AppendIfFree_free:
  assumes c: "consistent m" and p: "p \<in> set (memory_segments m)" "\<not> is_free m p"
    and a: "a \<in> set (memory_segments m)" "a \<noteq> p" "is_free m a"
    and r: "AppendIfFree m p a = Inr m'"
  shows "consistent m' \<and> nodes_created m' = nodes_created m \<and>
         memory_segments m' = remove1 a (memory_segments m) \<and>
         set (free_memory_segments m') = set (free_memory_segments m) - {a} \<and>
         Unite (segment_at m p) (segment_at m a) = Inr (segment_at m' p) \<and>
         (\<forall>it. it \<noteq> p \<longrightarrow> left (segment_at m' it) = left (segment_at m it) \<and>
                            right (segment_at m' it) = right (segment_at m it))"
proof -
  let ?C = MemorySegmentSizeCompare
  let ?es = "free_memory_segments m"
  have t: "tracked (segment_at m, ?es)" and h: "heap_ordered (?C (segment_at m)) ?es"
    and d: "distinct (memory_segments m)" and sub: "set ?es \<subseteq> set (memory_segments m)"
    and lt: "\<And>it. it \<in> set (memory_segments m) \<Longrightarrow> it < nodes_created m"
    using c by (simp_all add: consistent_def)
  have p_heap: "p \<notin> set ?es" using free_iff_heap [OF c p(1)] p(2) by simp
  have a_heap: "a \<in> set ?es" using free_iff_heap [OF c a(1)] a(3) by simp
  then obtain k where k: "k < length ?es" "?es ! k = a" by (auto simp: in_set_conv_nth)
  then have ka: "heap_index (segment_at m a) = Some k" using t by (auto simp: tracked_def)
  obtain u where u: "Unite (segment_at m p) (segment_at m a) = Inr u"
    using r a(3) by (auto simp: AppendIfFree_def is_free_def split: sum.splits)
  define m1 where "m1 = m\<lparr>segment_at := (segment_at m)(p := u)\<rparr>"
  obtain m2 where e: "heap_erase (Some k) m1 = Inr m2"
    and m': "m' = m2\<lparr>memory_segments := remove1 a (memory_segments m2)\<rparr>"
    using r a(2,3) u ka
    by (auto simp: AppendIfFree_def is_free_def Let_def m1_def split: sum.splits)
  have es1: "free_memory_segments m1 = ?es" by (simp add: m1_def)
  have t1: "tracked (segment_at m1, free_memory_segments m1)"
    unfolding es1 by (rule tracked_cong [OF _ t]) (use p_heap in \<open>auto simp: m1_def\<close>)
  have h1: "heap_ordered (?C (segment_at m1)) (free_memory_segments m1)"
    unfolding es1 by (rule heap_ordered_cong [OF _ h]) (use p_heap in \<open>auto simp: m1_def\<close>)
  have "\<exists>m2'. heap_erase (Some k) m1 = Inr m2' \<and>
           memory_segments m2' = memory_segments m1 \<and> nodes_created m2' = nodes_created m1 \<and>
           tracked (segment_at m2', free_memory_segments m2') \<and>
           heap_ordered (?C (segment_at m2')) (free_memory_segments m2') \<and>
           set (free_memory_segments m2') =
             set (free_memory_segments m1) - {free_memory_segments m1 ! k} \<and>
           same_ranges (segment_at m1) (segment_at m2') \<and>
           heap_index (segment_at m2' (free_memory_segments m1 ! k)) = kNullIndex \<and>
           (\<forall>it. it \<notin> set (free_memory_segments m1) \<longrightarrow> segment_at m2' it = segment_at m1 it)"
    using heap_erase_spec_ordered [OF t1 _ h1, of k] k(1) by (simp add: es1)
  then have s: "memory_segments m2 = memory_segments m" "nodes_created m2 = nodes_created m"
    "tracked (segment_at m2, free_memory_segments m2)"
    "heap_ordered (?C (segment_at m2)) (free_memory_segments m2)"
    "set (free_memory_segments m2) = set ?es - {a}"
    "same_ranges (segment_at m1) (segment_at m2)"
    "\<forall>it. it \<notin> set ?es \<longrightarrow> segment_at m2 it = segment_at m1 it"
    using e k(2) by (auto simp: es1 m1_def)
  have sp: "segment_at m' p = u" using s(7) p_heap by (simp add: m' m1_def)
  have free': "it \<in> set (free_memory_segments m')"
    if "it \<in> set (memory_segments m')" "is_free m' it" for it
  proof (rule ccontr)
    assume n: "it \<notin> set (free_memory_segments m')"
    have ita: "it \<noteq> a" "it \<in> set (memory_segments m)"
      using that(1) d by (auto simp: m' s(1))
    then have out: "it \<notin> set ?es" using n s(5) by (simp add: m')
    then have "segment_at m' it = segment_at m1 it" using s(7) by (simp add: m')
    moreover have "it \<noteq> p"
      using that(2) sp Unite_heap_index [OF u] by (auto simp: is_free_def)
    ultimately have "is_free m it" using that(2) by (simp add: is_free_def m1_def)
    then show False using out free_iff_heap [OF c ita(2)] by simp
  qed
  have "consistent m'"
    unfolding consistent_def
    using d lt sub s(3,4,5) free' by (auto simp: m' s(1,2))
  moreover have "left (segment_at m' it) = left (segment_at m it) \<and>
                 right (segment_at m' it) = right (segment_at m it)" if "it \<noteq> p" for it
    using s(6) that by (simp add: same_ranges_def m' m1_def)
  ultimately show ?thesis using s(1,2,5) u sp by (simp add: m')
qed

lemma AppendIfFree_step:
  assumes c: "consistent m" and p: "p \<in> set (memory_segments m)" "\<not> is_free m p"
    and a: "a \<in> set (memory_segments m)" "a \<noteq> p"
    and r: "AppendIfFree m p a = Inr m'"
  shows "consistent m' \<and> nodes_created m' = nodes_created m \<and> \<not> is_free m' p \<and>
         memory_segments m' = (if is_free m a then remove1 a (memory_segments m)
                               else memory_segments m) \<and>
         set (free_memory_segments m') = (if is_free m a then set (free_memory_segments m) - {a}
                                          else set (free_memory_segments m)) \<and>
         (if is_free m a then Unite (segment_at m p) (segment_at m a) = Inr (segment_at m' p)
          else segment_at m' p = segment_at m p) \<and>
         (\<forall>it. it \<noteq> p \<longrightarrow> left (segment_at m' it) = left (segment_at m it) \<and>
                            right (segment_at m' it) = right (segment_at m it))"
proof (cases "is_free m a")
  case False
  then have "m' = m" using r by (simp add: AppendIfFree_not_free)
  then show ?thesis using c p False by simp
next
  case True
  note f = AppendIfFree_free [OF c p a True r]
  have "heap_index (segment_at m' p) = kNullIndex"
    using f Unite_heap_index by blast
  then show ?thesis using f True by (simp add: is_free_def)
qed

lemma remove1_last_distinct:
  "distinct (xs @ p # ys) \<Longrightarrow> xs \<noteq> [] \<Longrightarrow> remove1 (last xs) (xs @ p # ys) = butlast xs @ p # ys"
proof -
  assume d: "distinct (xs @ p # ys)" and ne: "xs \<noteq> []"
  have "remove1 (last xs) xs = butlast xs"
    using d ne by (metis append_butlast_last_id distinct_append remove1_append
        remove1.simps(2) distinct.simps(2) remove1_idem append.right_neutral remove1.simps(1)
        disjoint_iff list.set_intros(1))
  then show ?thesis using ne by (simp add: remove1_append)
qed

lemma remove1_hd_distinct:
  "distinct (xs @ p # ys) \<Longrightarrow> ys \<noteq> [] \<Longrightarrow> remove1 (hd ys) (xs @ p # ys) = xs @ p # tl ys"
  by (cases ys) (auto simp: remove1_append)

lemma Unite_cong:
  "left a' = left a \<Longrightarrow> right a' = right a \<Longrightarrow> left b' = left b \<Longrightarrow> right b' = right b
     \<Longrightarrow> Unite a' b' = Unite a b"
  by (simp add: Unite_def)

lemma Free_spec:
  assumes c: "consistent m" and order: "memory_segments m = xs @ p # ys"
    and np: "\<not> is_free m p" and r: "Free m p = Inr m'"
  defines "ml \<equiv> xs \<noteq> [] \<and> is_free m (last xs)"
  defines "mr \<equiv> ys \<noteq> [] \<and> is_free m (hd ys)"
  shows "consistent m' \<and> nodes_created m' = nodes_created m \<and>
         memory_segments m' = (if ml then butlast xs else xs) @ p # (if mr then tl ys else ys) \<and>
         set (free_memory_segments m') =
           insert p (set (free_memory_segments m)
                       - ((if ml then {last xs} else {}) \<union> (if mr then {hd ys} else {}))) \<and>
         (\<forall>it. it \<noteq> p \<longrightarrow> left (segment_at m' it) = left (segment_at m it) \<and>
                            right (segment_at m' it) = right (segment_at m it)) \<and>
         (\<exists>u1 u2.
            (if ml then Unite (segment_at m p) (segment_at m (last xs)) = Inr u1
             else u1 = segment_at m p) \<and>
            (if mr then Unite u1 (segment_at m (hd ys)) = Inr u2 else u2 = u1) \<and>
            left (segment_at m' p) = left u2 \<and> right (segment_at m' p) = right u2)"
proof -
  let ?C = MemorySegmentSizeCompare
  have d: "distinct (xs @ p # ys)" using c order by (simp add: consistent_def)
  then have pn: "p \<notin> set xs" "p \<notin> set ys" by auto
  have pin: "p \<in> set (memory_segments m)" by (simp add: order)
  define step1 where "step1 = (if xs = [] then Inr m else AppendIfFree m p (last xs))"
  obtain m1 where s1: "step1 = Inr m1"
    using r pin pn
    by (auto simp: Free_def Let_def order prev_iterator_split step1_def split: sum.splits if_splits)
  define step2 where "step2 = (if ys = [] then Inr m1 else AppendIfFree m1 p (hd ys))"
  obtain m2 where s2: "step2 = Inr m2" and s3: "heap_push p m2 = Inr m'"
    using r pin pn s1
    by (auto simp: Free_def Let_def order prev_iterator_split next_iterator_split
          step1_def step2_def split: sum.splits if_splits)
  \<comment> \<open>the left neighbour\<close>
  have one: "consistent m1 \<and> nodes_created m1 = nodes_created m \<and> \<not> is_free m1 p \<and>
      memory_segments m1 = (if ml then butlast xs else xs) @ p # ys \<and>
      set (free_memory_segments m1) =
        set (free_memory_segments m) - (if ml then {last xs} else {}) \<and>
      (if ml then Unite (segment_at m p) (segment_at m (last xs)) = Inr (segment_at m1 p)
       else segment_at m1 p = segment_at m p) \<and>
      (\<forall>it. it \<noteq> p \<longrightarrow> left (segment_at m1 it) = left (segment_at m it) \<and>
                         right (segment_at m1 it) = right (segment_at m it))"
  proof (cases "xs = []")
    case True
    then show ?thesis using s1 c np order by (simp add: step1_def ml_def)
  next
    case False
    have a: "last xs \<in> set (memory_segments m)" "last xs \<noteq> p"
      using False pn by (auto simp: order)
    have "AppendIfFree m p (last xs) = Inr m1" using s1 False by (simp add: step1_def)
    from AppendIfFree_step [OF c pin np a this] show ?thesis
      using False remove1_last_distinct [OF d False] by (simp add: ml_def order)
  qed
  then have c1: "consistent m1" and np1: "\<not> is_free m1 p"
    and order1: "memory_segments m1 = (if ml then butlast xs else xs) @ p # ys"
    by simp_all
  have pin1: "p \<in> set (memory_segments m1)" by (simp add: order1)
  have d1: "distinct ((if ml then butlast xs else xs) @ p # ys)"
    using c1 order1 by (simp add: consistent_def)
  have free_hd: "is_free m1 (hd ys) = is_free m (hd ys)" if "ys \<noteq> []"
  proof -
    have in1: "hd ys \<in> set (memory_segments m1)" and in0: "hd ys \<in> set (memory_segments m)"
      using that by (simp_all add: order1 order)
    have "hd ys \<noteq> last xs" if "xs \<noteq> []"
      using d that \<open>ys \<noteq> []\<close> by (metis disjoint_iff distinct_append hd_in_set last_in_set
          list.set_intros(2))
    then have "hd ys \<in> set (free_memory_segments m1) \<longleftrightarrow> hd ys \<in> set (free_memory_segments m)"
      using one by (auto simp: ml_def)
    then show ?thesis using free_iff_heap [OF c1 in1] free_iff_heap [OF c in0] by simp
  qed
  \<comment> \<open>the right neighbour\<close>
  have two: "consistent m2 \<and> nodes_created m2 = nodes_created m1 \<and> \<not> is_free m2 p \<and>
      memory_segments m2 = (if ml then butlast xs else xs) @ p # (if mr then tl ys else ys) \<and>
      set (free_memory_segments m2) =
        set (free_memory_segments m1) - (if mr then {hd ys} else {}) \<and>
      (if mr then Unite (segment_at m1 p) (segment_at m1 (hd ys)) = Inr (segment_at m2 p)
       else segment_at m2 p = segment_at m1 p) \<and>
      (\<forall>it. it \<noteq> p \<longrightarrow> left (segment_at m2 it) = left (segment_at m1 it) \<and>
                         right (segment_at m2 it) = right (segment_at m1 it))"
  proof (cases "ys = []")
    case True
    then show ?thesis using s2 c1 np1 order1 by (simp add: step2_def mr_def)
  next
    case False
    have a: "hd ys \<in> set (memory_segments m1)" "hd ys \<noteq> p"
      using False pn by (auto simp: order1)
    have "AppendIfFree m1 p (hd ys) = Inr m2" using s2 False by (simp add: step2_def)
    from AppendIfFree_step [OF c1 pin1 np1 a this] show ?thesis
      using False remove1_hd_distinct [OF d1 False] free_hd [OF False]
      by (simp add: mr_def order1)
  qed
  then have c2: "consistent m2" and np2: "\<not> is_free m2 p"
    and order2: "memory_segments m2 = (if ml then butlast xs else xs) @ p # (if mr then tl ys else ys)"
    by simp_all
  have pin2: "p \<in> set (memory_segments m2)" by (simp add: order2)
  have t2: "tracked (segment_at m2, free_memory_segments m2)"
    and h2: "heap_ordered (?C (segment_at m2)) (free_memory_segments m2)"
    using c2 by (simp_all add: consistent_def)
  have v: "p \<notin> set (free_memory_segments m2)"
    using free_iff_heap [OF c2 pin2] np2 by simp
  \<comment> \<open>the push\<close>
  have "\<exists>m3. heap_push p m2 = Inr m3 \<and>
           memory_segments m3 = memory_segments m2 \<and> nodes_created m3 = nodes_created m2 \<and>
           tracked (segment_at m3, free_memory_segments m3) \<and>
           heap_ordered (?C (segment_at m3)) (free_memory_segments m3) \<and>
           set (free_memory_segments m3) = insert p (set (free_memory_segments m2)) \<and>
           same_ranges (segment_at m2) (segment_at m3) \<and>
           (\<forall>it. it \<notin> set (free_memory_segments m2) \<and> it \<noteq> p
                 \<longrightarrow> segment_at m3 it = segment_at m2 it)"
    by (rule heap_push_spec [OF t2 v h2])
  then have three: "memory_segments m' = memory_segments m2" "nodes_created m' = nodes_created m2"
    "tracked (segment_at m', free_memory_segments m')"
    "heap_ordered (?C (segment_at m')) (free_memory_segments m')"
    "set (free_memory_segments m') = insert p (set (free_memory_segments m2))"
    "same_ranges (segment_at m2) (segment_at m')"
    "\<forall>it. it \<notin> set (free_memory_segments m2) \<and> it \<noteq> p \<longrightarrow> segment_at m' it = segment_at m2 it"
    using s3 by auto
  have free': "it \<in> set (free_memory_segments m')"
    if "it \<in> set (memory_segments m')" "is_free m' it" for it
  proof (rule ccontr)
    assume n: "it \<notin> set (free_memory_segments m')"
    then have "it \<notin> set (free_memory_segments m2) \<and> it \<noteq> p" using three(5) by simp
    then have "is_free m2 it" "it \<notin> set (free_memory_segments m2)"
      using three(7) that(2) by (simp_all add: is_free_def)
    then show False using free_iff_heap [OF c2, of it] that(1) three(1) by simp
  qed
  have "consistent m'"
    using c2 three free' pin2 unfolding consistent_def by auto
  moreover have "nodes_created m' = nodes_created m" using one two three by simp
  moreover have "memory_segments m' =
      (if ml then butlast xs else xs) @ p # (if mr then tl ys else ys)"
    using order2 three(1) by simp
  moreover have "set (free_memory_segments m') =
      insert p (set (free_memory_segments m)
                  - ((if ml then {last xs} else {}) \<union> (if mr then {hd ys} else {})))"
    using one two three(5) by auto
  moreover have "left (segment_at m' it) = left (segment_at m it) \<and>
                 right (segment_at m' it) = right (segment_at m it)" if "it \<noteq> p" for it
    using one two three(6) that by (simp add: same_ranges_def)
  moreover have "\<exists>u1 u2.
      (if ml then Unite (segment_at m p) (segment_at m (last xs)) = Inr u1
       else u1 = segment_at m p) \<and>
      (if mr then Unite u1 (segment_at m (hd ys)) = Inr u2 else u2 = u1) \<and>
      left (segment_at m' p) = left u2 \<and> right (segment_at m' p) = right u2"
  proof -
    have e1: "if ml then Unite (segment_at m p) (segment_at m (last xs)) = Inr (segment_at m1 p)
              else segment_at m1 p = segment_at m p" using one by simp
    have "hd ys \<noteq> p" if "ys \<noteq> []" using that pn by auto
    then have "Unite (segment_at m1 p) (segment_at m1 (hd ys))
             = Unite (segment_at m1 p) (segment_at m (hd ys))" if mr
      using one that by (intro Unite_cong) (simp_all add: mr_def)
    then have e2: "if mr then Unite (segment_at m1 p) (segment_at m (hd ys)) = Inr (segment_at m2 p)
              else segment_at m2 p = segment_at m1 p" using two by auto
    have "left (segment_at m' p) = left (segment_at m2 p)"
      "right (segment_at m' p) = right (segment_at m2 p)"
      using three(6) by (simp_all add: same_ranges_def)
    then show ?thesis using e1 e2 by blast
  qed
  ultimately show ?thesis by blast
qed

text \<open>
  \<^verbatim>\<open>Free\<close> returns when \<^verbatim>\<open>Unite\<close> does, that is, when the free neighbours touch the
  segment.
\<close>

lemma Unite_left_neighbour:
  assumes "right other = left seg" "Unite seg other = Inr u"
  shows "left u = left other \<and> right u = right seg"
  using assms by (auto simp: Unite_def MemorySegment_new_def split: if_splits)

lemma Unite_right_neighbour:
  assumes "right seg = left other" "left seg \<le> right seg" "left other \<le> right other"
    "Unite seg other = Inr u"
  shows "left u = left seg \<and> right u = right other"
  using assms by (auto simp: Unite_def MemorySegment_new_def split: if_splits)

lemma AppendIfFree_returns:
  assumes c: "consistent m" and p: "p \<in> set (memory_segments m)" "\<not> is_free m p"
    and a: "a \<in> set (memory_segments m)" "a \<noteq> p"
    and u: "is_free m a \<Longrightarrow> \<exists>u. Unite (segment_at m p) (segment_at m a) = Inr u"
  shows "\<exists>m'. AppendIfFree m p a = Inr m'"
proof (cases "is_free m a")
  case False
  then show ?thesis by (simp add: AppendIfFree_not_free)
next
  case True
  let ?C = MemorySegmentSizeCompare
  let ?es = "free_memory_segments m"
  have t: "tracked (segment_at m, ?es)" and h: "heap_ordered (?C (segment_at m)) ?es"
    using c by (simp_all add: consistent_def)
  have p_heap: "p \<notin> set ?es" using free_iff_heap [OF c p(1)] p(2) by simp
  have a_heap: "a \<in> set ?es" using free_iff_heap [OF c a(1)] True by simp
  then obtain k where k: "k < length ?es" "?es ! k = a" by (auto simp: in_set_conv_nth)
  then have ka: "heap_index (segment_at m a) = Some k" using t by (auto simp: tracked_def)
  obtain u where u: "Unite (segment_at m p) (segment_at m a) = Inr u" using u True by blast
  define m1 where "m1 = m\<lparr>segment_at := (segment_at m)(p := u)\<rparr>"
  have es1: "free_memory_segments m1 = ?es" by (simp add: m1_def)
  have t1: "tracked (segment_at m1, free_memory_segments m1)"
    unfolding es1 by (rule tracked_cong [OF _ t]) (use p_heap in \<open>auto simp: m1_def\<close>)
  have h1: "heap_ordered (?C (segment_at m1)) (free_memory_segments m1)"
    unfolding es1 by (rule heap_ordered_cong [OF _ h]) (use p_heap in \<open>auto simp: m1_def\<close>)
  obtain m2 where "heap_erase (Some k) m1 = Inr m2"
    using heap_erase_spec_ordered [OF t1 _ h1, of k] k(1) by (auto simp: es1)
  then show ?thesis
    using True u ka a(2) by (simp add: AppendIfFree_def is_free_def Let_def m1_def)
qed

lemma Unite_returns:
  "left a = right b \<or> right a = left b \<Longrightarrow> \<exists>u. Unite a b = Inr u"
  by (auto simp: Unite_def)

lemma Free_returns:
  assumes c: "consistent m" and order: "memory_segments m = xs @ p # ys"
    and np: "\<not> is_free m p"
    and l: "xs \<noteq> [] \<and> is_free m (last xs)
              \<Longrightarrow> right (segment_at m (last xs)) = left (segment_at m p)"
    and r: "ys \<noteq> [] \<and> is_free m (hd ys)
              \<Longrightarrow> right (segment_at m p) = left (segment_at m (hd ys))"
  shows "\<exists>m'. Free m p = Inr m'"
proof -
  let ?C = MemorySegmentSizeCompare
  have d: "distinct (xs @ p # ys)" using c order by (simp add: consistent_def)
  then have pn: "p \<notin> set xs" "p \<notin> set ys" by auto
  have pin: "p \<in> set (memory_segments m)" by (simp add: order)
  define ml where "ml \<longleftrightarrow> xs \<noteq> [] \<and> is_free m (last xs)"
  \<comment> \<open>the left neighbour\<close>
  obtain m1 where s1: "(if xs = [] then Inr m else AppendIfFree m p (last xs)) = Inr m1"
  proof (cases "xs = []")
    case True
    then show ?thesis using that by simp
  next
    case False
    have a: "last xs \<in> set (memory_segments m)" "last xs \<noteq> p"
      using False pn by (auto simp: order)
    have "\<exists>u. Unite (segment_at m p) (segment_at m (last xs)) = Inr u" if "is_free m (last xs)"
      using l False that by (intro Unite_returns) simp
    then show ?thesis
      using AppendIfFree_returns [OF c pin np a] False that by auto
  qed
  have one: "consistent m1 \<and> \<not> is_free m1 p \<and>
      memory_segments m1 = (if ml then butlast xs else xs) @ p # ys \<and>
      set (free_memory_segments m1) =
        set (free_memory_segments m) - (if ml then {last xs} else {}) \<and>
      right (segment_at m1 p) = right (segment_at m p) \<and>
      (\<forall>it. it \<noteq> p \<longrightarrow> left (segment_at m1 it) = left (segment_at m it) \<and>
                         right (segment_at m1 it) = right (segment_at m it))"
  proof (cases "xs = []")
    case True
    then show ?thesis using s1 c np order by (simp add: ml_def)
  next
    case False
    have a: "last xs \<in> set (memory_segments m)" "last xs \<noteq> p"
      using False pn by (auto simp: order)
    have s: "AppendIfFree m p (last xs) = Inr m1" using s1 False by simp
    note st = AppendIfFree_step [OF c pin np a s]
    have "right (segment_at m1 p) = right (segment_at m p)"
    proof (cases "is_free m (last xs)")
      case True
      then have "Unite (segment_at m p) (segment_at m (last xs)) = Inr (segment_at m1 p)"
        using st by simp
      then show ?thesis
        using Unite_left_neighbour [of "segment_at m (last xs)" "segment_at m p"] l True False
        by simp
    next
      case False
      then show ?thesis using st by simp
    qed
    then show ?thesis
      using st False remove1_last_distinct [OF d False] by (simp add: ml_def order)
  qed
  then have c1: "consistent m1" and np1: "\<not> is_free m1 p"
    and order1: "memory_segments m1 = (if ml then butlast xs else xs) @ p # ys"
    by simp_all
  have pin1: "p \<in> set (memory_segments m1)" by (simp add: order1)
  have pn1: "p \<notin> set (if ml then butlast xs else xs)"
    using pn by (auto dest: in_set_butlastD)
  have free_hd: "is_free m (hd ys)" if "ys \<noteq> []" "is_free m1 (hd ys)"
  proof -
    have in1: "hd ys \<in> set (memory_segments m1)" and in0: "hd ys \<in> set (memory_segments m)"
      using that by (simp_all add: order1 order)
    have "hd ys \<in> set (free_memory_segments m1)" using free_iff_heap [OF c1 in1] that by simp
    then have "hd ys \<in> set (free_memory_segments m)" using one by auto
    then show ?thesis using free_iff_heap [OF c in0] by simp
  qed
  \<comment> \<open>the right neighbour\<close>
  obtain m2 where s2: "(if ys = [] then Inr m1 else AppendIfFree m1 p (hd ys)) = Inr m2"
  proof (cases "ys = []")
    case True
    then show ?thesis using that by simp
  next
    case False
    have a: "hd ys \<in> set (memory_segments m1)" "hd ys \<noteq> p"
      using False pn by (auto simp: order1)
    have "\<exists>u. Unite (segment_at m1 p) (segment_at m1 (hd ys)) = Inr u" if f: "is_free m1 (hd ys)"
    proof (rule Unite_returns)
      have "right (segment_at m p) = left (segment_at m (hd ys))"
        using r False free_hd [OF False f] by simp
      then show "left (segment_at m1 p) = right (segment_at m1 (hd ys)) \<or>
                 right (segment_at m1 p) = left (segment_at m1 (hd ys))"
        using one a(2) by simp
    qed
    then show ?thesis
      using AppendIfFree_returns [OF c1 pin1 np1 a] False that by auto
  qed
  have two: "consistent m2 \<and> \<not> is_free m2 p \<and> p \<in> set (memory_segments m2)"
  proof (cases "ys = []")
    case True
    then show ?thesis using s2 c1 np1 pin1 by simp
  next
    case False
    have a: "hd ys \<in> set (memory_segments m1)" "hd ys \<noteq> p"
      using False pn by (auto simp: order1)
    have s: "AppendIfFree m1 p (hd ys) = Inr m2" using s2 False by simp
    note st = AppendIfFree_step [OF c1 pin1 np1 a s]
    then show ?thesis using pin1 a(2) by (auto split: if_splits)
  qed
  have t2: "tracked (segment_at m2, free_memory_segments m2)"
    and h2: "heap_ordered (?C (segment_at m2)) (free_memory_segments m2)"
    using two by (simp_all add: consistent_def)
  have v: "p \<notin> set (free_memory_segments m2)"
    using free_iff_heap [of m2 p] two by simp
  obtain m3 where s3: "heap_push p m2 = Inr m3"
    using heap_push_spec [OF t2 v h2] by blast
  have "prev_iterator (memory_segments m) p = (if xs = [] then None else Some (last xs))"
    unfolding order by (rule prev_iterator_split [OF pn])
  moreover have "next_iterator (memory_segments m) p = (if ys = [] then None else Some (hd ys))"
    unfolding order by (rule next_iterator_split [OF pn(1)])
  ultimately have "Free m p = Inr m3"
    using pin s1 s2 s3 by (auto simp: Free_def Let_def split: if_splits)
  then show ?thesis by blast
qed

subsection \<open>Reachable states\<close>

lemma reachable_consistent: "reachable memory_size m \<Longrightarrow> consistent m"
proof (induction rule: reachable.induct)
  case (constructed m)
  then show ?case by (rule consistent_new)
next
  case (allocated m sz result m')
  then show ?case using Allocate_total [of m sz] by auto
next
  case (freed m it m')
  obtain xs ys where "memory_segments m = xs @ it # ys"
    using freed.hyps(2) by (auto dest: split_list)
  then show ?case using Free_spec [OF freed.IH _ freed.hyps(3,4)] by blast
qed

lemma heap_top_best:
  assumes "heap_ordered c es" "strict_weak c"
  shows "i < length es \<Longrightarrow> \<not> c (es ! i) (es ! 0)"
proof (induction i rule: less_induct)
  case (less i)
  show ?case
  proof (cases "i = 0")
    case True
    then show ?thesis using strict_weak_asym [OF assms(2)] by blast
  next
    case False
    then have p: "Parent i < i" by (simp add: Parent_less)
    have "\<not> c (es ! i) (es ! Parent i)" using assms(1) False less.prems by (simp add: heap_ordered_def)
    moreover have "\<not> c (es ! Parent i) (es ! 0)" using less.IH [OF p] p less.prems by simp
    ultimately show ?thesis using strict_weak_negtrans [OF assms(2)] by blast
  qed
qed

lemma free_subset:
  assumes "consistent m" "consistent m'" "memory_segments m' = memory_segments m"
    "set (free_memory_segments m') \<subseteq> set (free_memory_segments m)"
    "it \<in> set (memory_segments m)" "is_free m' it"
  shows "is_free m it"
  using assms free_iff_heap [of m it] free_iff_heap [of m' it] by auto

lemma no_adjacent_free_exact:
  assumes c: "consistent m" and ne: "free_memory_segments m \<noteq> []"
    and sz: "sz = Size (segment_at m (free_memory_segments m ! 0))"
    and a: "Allocate m sz = Inr (result, m')" and n: "no_adjacent_free m"
  shows "no_adjacent_free m'"
proof -
  from Allocate_exact [OF c ne sz] a
  have s: "consistent m'" "memory_segments m' = memory_segments m"
    "set (free_memory_segments m') \<subseteq> set (free_memory_segments m)" by auto
  show ?thesis
    unfolding no_adjacent_free_def s(2)
    by (rule successively_mono [OF n [unfolded no_adjacent_free_def]])
       (use free_subset [OF c s] in blast)
qed

lemma no_adjacent_free_split:
  assumes c: "consistent m" and ne: "free_memory_segments m \<noteq> []"
    and sz: "sz < Size (segment_at m (free_memory_segments m ! 0))"
    and a: "Allocate m sz = Inr (result, m')" and n: "no_adjacent_free m"
  shows "no_adjacent_free m'"
proof -
  let ?best = "free_memory_segments m ! 0" and ?n = "nodes_created m"
  from Allocate_split [OF c ne sz] a
  have s: "consistent m'" "memory_segments m' = list_insert ?best ?n (memory_segments m)"
    "set (free_memory_segments m') = set (free_memory_segments m)" by auto
  have fresh: "?n \<notin> set (memory_segments m)" using c by (auto simp: consistent_def)
  then have nf: "\<not> is_free m' ?n"
    using free_iff_heap [OF s(1), of ?n] s(2,3) c by (auto simp: consistent_def)
  obtain xs ys where o: "memory_segments m = xs @ ?best # ys" "?best \<notin> set xs"
    using top_facts(1) [OF c ne] by (meson split_list_first)
  have o': "memory_segments m' = xs @ ?n # ?best # ys"
    using s(2) o by (simp add: list_insert_split)
  have same: "is_free m' it = is_free m it" if "it \<in> set (memory_segments m)" for it
    using that free_iff_heap [OF c that] free_iff_heap [OF s(1), of it] s(2,3) by simp
  let ?P = "\<lambda>a b. \<not> (is_free m a \<and> is_free m b)"
  let ?P' = "\<lambda>a b. \<not> (is_free m' a \<and> is_free m' b)"
  have old: "successively ?P xs" "successively ?P (?best # ys)"
    using n by (simp_all add: no_adjacent_free_def o successively_append_iff)
  have "successively ?P' xs"
    by (rule successively_mono [OF old(1)]) (use same o in auto)
  moreover have "successively ?P' (?best # ys)"
    by (rule successively_mono [OF old(2)]) (use same o in auto)
  ultimately show ?thesis
    using nf by (simp add: no_adjacent_free_def o' successively_append_iff)
qed

lemma successively_butlast: "successively P xs \<Longrightarrow> successively P (butlast xs)"
  by (cases "xs = []")
     (simp, metis append_butlast_last_id successively_append_iff)

lemma successively_tl: "successively P xs \<Longrightarrow> successively P (tl xs)"
  by (cases xs) (auto simp: successively_Cons)

lemma successively_last_butlast:
  "successively P xs \<Longrightarrow> butlast xs \<noteq> [] \<Longrightarrow> P (last (butlast xs)) (last xs)"
proof -
  assume s: "successively P xs" and b: "butlast xs \<noteq> []"
  then have "xs = butlast xs @ [last xs]" by (cases "xs = []") auto
  then have "successively P (butlast xs @ [last xs])" using s by simp
  then show ?thesis using b by (simp add: successively_append_iff)
qed

lemma successively_hd_tl:
  "successively P xs \<Longrightarrow> tl xs \<noteq> [] \<Longrightarrow> P (hd xs) (hd (tl xs))"
  by (cases xs) (auto simp: successively_Cons)

lemma no_adjacent_free_Free:
  assumes c: "consistent m" and o: "memory_segments m = xs @ p # ys"
    and np: "\<not> is_free m p" and r: "Free m p = Inr m'" and n: "no_adjacent_free m"
  shows "no_adjacent_free m'"
proof -
  define ml where "ml \<longleftrightarrow> xs \<noteq> [] \<and> is_free m (last xs)"
  define mr where "mr \<longleftrightarrow> ys \<noteq> [] \<and> is_free m (hd ys)"
  define xs' where "xs' = (if ml then butlast xs else xs)"
  define ys' where "ys' = (if mr then tl ys else ys)"
  from Free_spec [OF c o np r]
  have s: "consistent m'" "memory_segments m' = xs' @ p # ys'"
    "set (free_memory_segments m') =
       insert p (set (free_memory_segments m)
                   - ((if ml then {last xs} else {}) \<union> (if mr then {hd ys} else {})))"
    by (simp_all add: ml_def mr_def xs'_def ys'_def)
  have d: "distinct (xs @ p # ys)" using c o by (simp add: consistent_def)
  have subx: "set xs' \<subseteq> set xs" and suby: "set ys' \<subseteq> set ys"
    by (auto simp: xs'_def ys'_def mr_def dest: in_set_butlastD list.set_sel(2))
  have lastx: "last xs \<notin> set xs'" if ml
    using that d by (metis append_butlast_last_id distinct_append distinct.simps(2) xs'_def
        disjoint_iff list.set_intros(1) ml_def)
  have hdy: "hd ys \<notin> set ys'" if mr
    using that d by (cases ys) (auto simp: ys'_def mr_def)
  have same: "is_free m' it = is_free m it" if "it \<in> set xs' \<union> set ys'" for it
  proof -
    have mem: "ml \<longrightarrow> last xs \<in> set xs" "mr \<longrightarrow> hd ys \<in> set ys"
      by (auto simp: ml_def mr_def)
    have i0: "it \<in> set (memory_segments m)" and i1: "it \<in> set (memory_segments m')"
      and ne: "it \<noteq> p" "ml \<longrightarrow> it \<noteq> last xs" "mr \<longrightarrow> it \<noteq> hd ys"
      using that subx suby d lastx hdy mem by (auto simp: o s(2))
    have "disjnt (set xs) (set ys)" using d by (auto simp: disjnt_def)
    have "it \<in> set (free_memory_segments m') \<longleftrightarrow> it \<in> set (free_memory_segments m)"
      using ne by (auto simp: s(3))
    then show ?thesis using free_iff_heap [OF c i0] free_iff_heap [OF s(1) i1] by simp
  qed
  let ?P = "\<lambda>a b. \<not> (is_free m a \<and> is_free m b)"
  let ?P' = "\<lambda>a b. \<not> (is_free m' a \<and> is_free m' b)"
  have old: "successively ?P xs" "successively ?P ys"
    "xs \<noteq> [] \<Longrightarrow> \<not> is_free m (last xs) \<or> \<not> is_free m p"
    using n by (auto simp: no_adjacent_free_def o successively_append_iff successively_Cons)
  have "successively ?P xs'" "successively ?P ys'"
    using old by (auto simp: xs'_def ys'_def successively_butlast successively_tl)
  then have new: "successively ?P' xs'" "successively ?P' ys'"
    using same by (auto elim!: successively_mono)
  have left_ok: "\<not> is_free m' (last xs')" if "xs' \<noteq> []"
  proof (cases ml)
    case True
    then have "\<not> is_free m (last xs')"
      using successively_last_butlast [OF old(1)] that by (auto simp: xs'_def ml_def)
    then show ?thesis using same [of "last xs'"] that by simp
  next
    case False
    then show ?thesis using same [of "last xs'"] that by (auto simp: xs'_def ml_def)
  qed
  have right_ok: "\<not> is_free m' (hd ys')" if "ys' \<noteq> []"
  proof (cases mr)
    case True
    then have "\<not> is_free m (hd ys')"
      using successively_hd_tl [OF old(2)] that by (auto simp: ys'_def mr_def)
    then show ?thesis using same [of "hd ys'"] that by simp
  next
    case False
    then show ?thesis using same [of "hd ys'"] that by (auto simp: ys'_def mr_def)
  qed
  show ?thesis
    using new left_ok right_ok
    by (auto simp: no_adjacent_free_def s(2) successively_append_iff successively_Cons)
qed

lemma no_adjacent_free_new: "MemoryManager_new memory_size = Inr m \<Longrightarrow> no_adjacent_free m"
  by (auto simp: MemoryManager_new_eq no_adjacent_free_def)

lemma reachable_no_adjacent_free: "reachable memory_size m \<Longrightarrow> no_adjacent_free m"
proof (induction rule: reachable.induct)
  case (constructed m)
  then show ?case by (rule no_adjacent_free_new)
next
  case (allocated m sz result m')
  have c: "consistent m" using allocated.hyps(1) by (rule reachable_consistent)
  show ?case
  proof (cases "free_memory_segments m = []")
    case True
    then show ?thesis using allocated Allocate_none [of m sz] by simp
  next
    case False
    note tf = top_facts [OF c False]
    consider "sz > Size (segment_at m (free_memory_segments m ! 0))"
      | "sz = Size (segment_at m (free_memory_segments m ! 0))"
      | "sz < Size (segment_at m (free_memory_segments m ! 0))" by linarith
    then show ?thesis
    proof cases
      case 1
      then show ?thesis using allocated tf Allocate_none [of m sz] by simp
    next
      case 2
      then show ?thesis using no_adjacent_free_exact [OF c False] allocated by blast
    next
      case 3
      then show ?thesis using no_adjacent_free_split [OF c False] allocated by blast
    qed
  qed
next
  case (freed m it m')
  have c: "consistent m" using freed.hyps(1) by (rule reachable_consistent)
  obtain xs ys where "memory_segments m = xs @ it # ys"
    using freed.hyps(2) by (auto dest: split_list)
  then show ?case using no_adjacent_free_Free [OF c _ freed.hyps(3,4) freed.IH] by blast
qed

section \<open>First states of a manager of 10 cells; heap membership\<close>

lemma example_fresh_new: "MemoryManager_new 10 = Inr example_fresh"
  by (simp add: MemoryManager_new_eq example_fresh_def to_int_def)

lemma example_fresh_reachable: "reachable 10 example_fresh"
  by (rule reachable.constructed [OF example_fresh_new])

lemma example_split_Allocate: "Allocate example_fresh 3 = Inr (Some 1, example_split)"
  by (simp add: example_fresh_def example_split_def heap_eval manager_eval fun_upd_twist)

lemma example_split_reachable: "reachable 10 example_split"
  by (rule reachable.allocated [OF example_fresh_reachable example_split_Allocate])

lemma example_split_Free: "Free example_split 1 = Inr example_merged"
  by (simp add: example_merged_def example_split_def heap_eval manager_eval fun_upd_twist)

lemma consistent_heap_membership:
  assumes c: "consistent m"
  shows "heap_membership m"
proof -
  have one: "it \<in> set (free_memory_segments m) \<longleftrightarrow> heap_index (segment_at m it) \<noteq> kNullIndex"
    if "it \<in> set (memory_segments m)" for it
    using free_iff_heap [OF c that] by (simp add: is_free_def)
  have two: "i < length (free_memory_segments m) \<and> free_memory_segments m ! i = it"
    if it: "it \<in> set (memory_segments m) \<and> heap_index (segment_at m it) = Some i" for it i
  proof -
    have "it \<in> set (free_memory_segments m)"
      using free_iff_heap [OF c, of it] it by (simp add: is_free_def)
    then obtain k where k: "k < length (free_memory_segments m)" "free_memory_segments m ! k = it"
      by (auto simp: in_set_conv_nth)
    then have "heap_index (segment_at m it) = Some k"
      using c by (auto simp: consistent_def tracked_def)
    then show ?thesis using it k by simp
  qed
  have three: "free_memory_segments m ! i \<in> set (memory_segments m) \<and>
        heap_index (segment_at m (free_memory_segments m ! i)) = Some i"
    if "i < length (free_memory_segments m)" for i
    using c that by (auto simp: consistent_def tracked_def)
  show ?thesis unfolding heap_membership_def using one two three by blast
qed

section \<open>Best fit\<close>

lemma top_best_fit:
  assumes c: "consistent m" and ne: "free_memory_segments m \<noteq> []"
  shows "best_fit m (free_memory_segments m ! 0)"
proof -
  let ?es = "free_memory_segments m" and ?C = "MemorySegmentSizeCompare (segment_at m)"
  note tf = top_facts [OF c ne]
  have h: "heap_ordered ?C ?es" using c by (simp add: consistent_def)
  have "Size (segment_at m f) \<le> Size (segment_at m (?es ! 0)) \<and>
        (Size (segment_at m f) = Size (segment_at m (?es ! 0))
           \<longrightarrow> left (segment_at m (?es ! 0)) \<le> left (segment_at m f))"
    if f: "f \<in> set (memory_segments m) \<and> is_free m f" for f
  proof -
    have "f \<in> set ?es" using free_iff_heap [OF c, of f] f by simp
    then obtain i where "i < length ?es" "?es ! i = f" by (auto simp: in_set_conv_nth)
    then have "\<not> ?C f (?es ! 0)"
      using heap_top_best [OF h strict_weak_compare, of i] by simp
    then show ?thesis by (auto simp: MemorySegmentSizeCompare_def split: if_splits)
  qed
  moreover have "is_free m (?es ! 0)" using free_iff_heap [OF c tf(1)] tf(3) by simp
  ultimately show ?thesis using tf(1) unfolding best_fit_def by blast
qed

lemma Allocate_cases:
  assumes c: "consistent m"
  obtains (empty) "free_memory_segments m = []" "Allocate m sz = Inr (None, m)"
  | (large) "free_memory_segments m \<noteq> []"
      "Size (segment_at m (free_memory_segments m ! 0)) < sz" "Allocate m sz = Inr (None, m)"
  | (exact) m' where "free_memory_segments m \<noteq> []"
      "sz = Size (segment_at m (free_memory_segments m ! 0))"
      "Allocate m sz = Inr (Some (free_memory_segments m ! 0), m')"
  | (split) m' where "free_memory_segments m \<noteq> []"
      "sz < Size (segment_at m (free_memory_segments m ! 0))"
      "Allocate m sz = Inr (Some (nodes_created m), m')"
proof (cases "free_memory_segments m = []")
  case True
  then show ?thesis using empty Allocate_none [of m sz] by simp
next
  case False
  note tf = top_facts [OF c False]
  consider "sz > Size (segment_at m (free_memory_segments m ! 0))"
    | "sz = Size (segment_at m (free_memory_segments m ! 0))"
    | "sz < Size (segment_at m (free_memory_segments m ! 0))" by linarith
  then show ?thesis
  proof cases
    case 1
    then show ?thesis using large False tf Allocate_none [of m sz] by simp
  next
    case 2
    then show ?thesis using exact False Allocate_exact [OF c False 2] by blast
  next
    case 3
    then show ?thesis using split False Allocate_split [OF c False 3] by blast
  qed
qed

section \<open>Endpoints stay values of int\<close>

lemma to_int_idem [simp]: "to_int (to_int x) = to_int x"
  by (simp add: to_int_def)

lemma to_int_id: "- (2 ^ 31) \<le> x \<Longrightarrow> x < 2 ^ 31 \<Longrightarrow> to_int x = x"
  by (simp add: to_int_def)

lemma to_int_to_size_t: "to_int (int (to_size_t x)) = to_int x"
proof -
  have "(x mod 2 ^ 64 + 2 ^ 31) mod 2 ^ 32 = (x + 2 ^ 31) mod (2 ^ 32 :: int)"
  proof -
    have "(x mod 2 ^ 64) mod 2 ^ 32 = x mod (2 ^ 32 :: int)"
      by (rule mod_mod_cancel) (simp add: le_imp_power_dvd)
    then show ?thesis by (metis mod_add_left_eq)
  qed
  then show ?thesis by (simp add: to_int_def to_size_t_def)
qed

lemma to_size_t_less: "to_size_t x < 2 ^ 64"
proof -
  have "x mod 2 ^ 64 < (2 ^ 64 :: int)" by simp
  then show ?thesis unfolding to_size_t_def by (simp add: nat_less_iff)
qed

lemma new_right_zero:
  "to_int l = l \<Longrightarrow> to_int (int ((to_size_t l + 0) mod 2 ^ 64)) = l"
  using to_size_t_less [of l] by (simp add: to_int_to_size_t)

lemma Unite_ranges:
  "Unite a b = Inr u \<Longrightarrow>
     (left u = left a \<or> left u = left b) \<and> (right u = right a \<or> right u = right b)"
  by (auto simp: Unite_def MemorySegment_new_def split: if_splits)

lemma representable_new: "MemoryManager_new memory_size = Inr m \<Longrightarrow> representable m"
  by (auto simp: MemoryManager_new_eq representable_def to_int_def)

lemma reachable_representable: "reachable memory_size m \<Longrightarrow> representable m"
proof (induction rule: reachable.induct)
  case (constructed m)
  then show ?case by (rule representable_new)
next
  case (allocated m sz result m')
  have c: "consistent m" using allocated.hyps(1) by (rule reachable_consistent)
  note r = allocated.IH [unfolded representable_def, rule_format]
  show ?case
  proof (rule Allocate_cases [OF c, of sz])
    assume "Allocate m sz = Inr (None, m)"
    then show ?thesis using allocated by simp
  next
    assume "Allocate m sz = Inr (None, m)"
    then show ?thesis using allocated by simp
  next
    fix m2 assume a: "free_memory_segments m \<noteq> []"
      "sz = Size (segment_at m (free_memory_segments m ! 0))"
      "Allocate m sz = Inr (Some (free_memory_segments m ! 0), m2)"
    then have "memory_segments m' = memory_segments m" "same_ranges (segment_at m) (segment_at m')"
      using Allocate_exact [OF c a(1,2)] allocated.hyps(2) by auto
    then show ?thesis using r by (simp add: representable_def same_ranges_def)
  next
    fix m2 assume a: "free_memory_segments m \<noteq> []"
      "sz < Size (segment_at m (free_memory_segments m ! 0))"
      "Allocate m sz = Inr (Some (nodes_created m), m2)"
    let ?best = "free_memory_segments m ! 0" and ?n = "nodes_created m"
    let ?nr = "to_int (int ((to_size_t (left (segment_at m ?best)) + sz) mod 2 ^ 64))"
    have s: "memory_segments m' = list_insert ?best ?n (memory_segments m)"
      "segment_at m' ?n = MemorySegment_new (left (segment_at m ?best)) ?nr"
      "left (segment_at m' ?best) = ?nr"
      "right (segment_at m' ?best) = right (segment_at m ?best)"
      "\<And>it. it \<noteq> ?n \<and> it \<noteq> ?best \<Longrightarrow>
         left (segment_at m' it) = left (segment_at m it) \<and>
         right (segment_at m' it) = right (segment_at m it)"
      using Allocate_split [OF c a(1,2)] allocated.hyps(2) a(3) by auto
    have b: "?best \<in> set (memory_segments m)" using top_facts(1) [OF c a(1)] .
    have "to_int (left (segment_at m' it)) = left (segment_at m' it) \<and>
          to_int (right (segment_at m' it)) = right (segment_at m' it)"
      if "it \<in> set (memory_segments m')" for it
    proof -
      have "it = ?n \<or> it \<in> set (memory_segments m)" using that unfolding s(1) by simp
      then consider "it = ?n" | "it = ?best"
        | "it \<noteq> ?n" "it \<noteq> ?best" "it \<in> set (memory_segments m)"
        by blast
      then show ?thesis
      proof cases
        case 1
        then show ?thesis using s(2) r [OF b] by (simp add: MemorySegment_new_def)
      next
        case 2
        then show ?thesis using s(3,4) r [OF b] by simp
      next
        case 3
        then show ?thesis using s(5) [of it] r [of it] by simp
      qed
    qed
    then show ?thesis by (simp add: representable_def)
  qed
next
  case (freed m p m')
  have c: "consistent m" using freed.hyps(1) by (rule reachable_consistent)
  note r = freed.IH [unfolded representable_def, rule_format]
  obtain xs ys where o: "memory_segments m = xs @ p # ys"
    using freed.hyps(2) by (auto dest: split_list)
  define ml where "ml \<longleftrightarrow> xs \<noteq> [] \<and> is_free m (last xs)"
  define mr where "mr \<longleftrightarrow> ys \<noteq> [] \<and> is_free m (hd ys)"
  from Free_spec [OF c o freed.hyps(3,4)]
  obtain u1 u2 where s:
    "memory_segments m' = (if ml then butlast xs else xs) @ p # (if mr then tl ys else ys)"
    "\<And>it. it \<noteq> p \<Longrightarrow> left (segment_at m' it) = left (segment_at m it) \<and>
                        right (segment_at m' it) = right (segment_at m it)"
    "if ml then Unite (segment_at m p) (segment_at m (last xs)) = Inr u1 else u1 = segment_at m p"
    "if mr then Unite u1 (segment_at m (hd ys)) = Inr u2 else u2 = u1"
    "left (segment_at m' p) = left u2" "right (segment_at m' p) = right u2"
    unfolding ml_def mr_def by blast
  have sub: "set (memory_segments m') \<subseteq> set (memory_segments m)"
    by (auto simp: s(1) o mr_def dest: in_set_butlastD list.set_sel(2))
  let ?ok = "\<lambda>seg. to_int (left seg) = left seg \<and> to_int (right seg) = right seg"
  have okp: "?ok (segment_at m p)" using r [of p] o by simp
  have "?ok u1"
  proof (cases ml)
    case True
    then have "?ok (segment_at m (last xs))" using r [of "last xs"] o by (simp add: ml_def)
    then show ?thesis using Unite_ranges [of "segment_at m p" "segment_at m (last xs)" u1] s(3) True okp
      by auto
  next
    case False
    then show ?thesis using s(3) okp by simp
  qed
  then have "?ok u2"
  proof (cases mr)
    case True
    then have "?ok (segment_at m (hd ys))" using r [of "hd ys"] o by (simp add: mr_def)
    then show ?thesis using Unite_ranges [of u1 "segment_at m (hd ys)" u2] s(4) True \<open>?ok u1\<close>
      by auto
  next
    case False
    then show ?thesis using s(4) \<open>?ok u1\<close> by simp
  qed
  then have "?ok (segment_at m' it)" if "it \<in> set (memory_segments m')" for it
    using that s(2) [of it] s(5,6) r [of it] sub by (cases "it = p") auto
  then show ?case by (simp add: representable_def)
qed

section \<open>The segments partition the memory\<close>

lemma Size_exact:
  "0 \<le> left seg \<Longrightarrow> left seg \<le> right seg \<Longrightarrow> right seg < 2 ^ 31
     \<Longrightarrow> Size seg = nat (right seg - left seg)"
  by (simp add: Size_def to_int_def to_size_t_def)

lemma new_right_exact:
  assumes "0 \<le> l" "l + int sz < 2 ^ 31"
  shows "to_int (int ((to_size_t l + sz) mod 2 ^ 64)) = l + int sz"
proof -
  have l: "to_size_t l = nat l" using assms by (simp add: to_size_t_def)
  have "int (nat l + sz) < 18446744073709551616" using assms by simp
  then have "nat l + sz < 18446744073709551616" by linarith
  then have "(nat l + sz) mod 2 ^ 64 = nat l + sz" by simp
  then show ?thesis using assms by (simp add: l to_int_def)
qed

lemma covers_bounds:
  "covers n rs \<Longrightarrow> r \<in> set rs \<Longrightarrow> 0 \<le> fst r \<and> fst r \<le> snd r \<and> snd r \<le> n"
  unfolding covers_def by blast

lemma covers_middle:
  "covers n (as @ q # bs) \<longleftrightarrow>
     (if as = [] then fst q = 0
      else fst (hd as) = 0 \<and> snd (last as) = fst q \<and> successively (\<lambda>a b. snd a = fst b) as) \<and>
     (if bs = [] then snd q = n
      else snd (last bs) = n \<and> snd q = fst (hd bs) \<and> successively (\<lambda>a b. snd a = fst b) bs) \<and>
     (\<forall>r. r \<in> set as \<union> {q} \<union> set bs \<longrightarrow> 0 \<le> fst r \<and> fst r \<le> snd r \<and> snd r \<le> n)"
proof -
  have 1: "(as @ q # bs \<noteq> []) = True" by simp
  have 2: "fst (hd (as @ q # bs)) = (if as = [] then fst q else fst (hd as))" by simp
  have 3: "snd (last (as @ q # bs)) = (if bs = [] then snd q else snd (last bs))" by simp
  have 4: "successively (\<lambda>a b. snd a = fst b) (as @ q # bs) \<longleftrightarrow>
      (as = [] \<or> snd (last as) = fst q \<and> successively (\<lambda>a b. snd a = fst b) as) \<and>
      (bs = [] \<or> snd q = fst (hd bs) \<and> successively (\<lambda>a b. snd a = fst b) bs)"
    unfolding successively_append_iff successively_Cons [of _ q bs] by auto
  have 5: "set (as @ q # bs) = set as \<union> {q} \<union> set bs" by auto
  show ?thesis unfolding covers_def 1 2 3 4 5 by (cases "as = []"; cases "bs = []") auto
qed


lemma covers_middleD:
  assumes "covers n (as @ q # bs)"
  shows "if as = [] then fst q = 0
         else fst (hd as) = 0 \<and> snd (last as) = fst q \<and> successively (\<lambda>a b. snd a = fst b) as"
    and "if bs = [] then snd q = n
         else snd (last bs) = n \<and> snd q = fst (hd bs) \<and> successively (\<lambda>a b. snd a = fst b) bs"
    and "\<And>r. r \<in> set as \<union> {q} \<union> set bs \<Longrightarrow> 0 \<le> fst r \<and> fst r \<le> snd r \<and> snd r \<le> n"
  using assms unfolding covers_middle by blast+

lemma covers_middleI:
  assumes "if as = [] then fst q = 0
         else fst (hd as) = 0 \<and> snd (last as) = fst q \<and> successively (\<lambda>a b. snd a = fst b) as"
    and "if bs = [] then snd q = n
         else snd (last bs) = n \<and> snd q = fst (hd bs) \<and> successively (\<lambda>a b. snd a = fst b) bs"
    and "\<And>r. r \<in> set as \<union> {q} \<union> set bs \<Longrightarrow> 0 \<le> fst r \<and> fst r \<le> snd r \<and> snd r \<le> n"
  shows "covers n (as @ q # bs)"
  using assms unfolding covers_middle by blast

lemma covers_split:
  assumes "covers n (as @ (l, r) # bs)" "l \<le> x" "x \<le> r"
  shows "covers n (as @ (l, x) # (x, r) # bs)"
proof (rule covers_middleI)
  note old = covers_middleD [OF assms(1)]
  have b: "0 \<le> l" "l \<le> r" "r \<le> n" using old(3) [of "(l, r)"] by simp_all
  show "if as = [] then fst (l, x) = 0
        else fst (hd as) = 0 \<and> snd (last as) = fst (l, x) \<and>
             successively (\<lambda>a b. snd a = fst b) as"
    using old(1) by (simp split: if_splits)
  show "if (x, r) # bs = [] then snd (l, x) = n
        else snd (last ((x, r) # bs)) = n \<and> snd (l, x) = fst (hd ((x, r) # bs)) \<and>
             successively (\<lambda>a b. snd a = fst b) ((x, r) # bs)"
    using old(2) by (simp add: successively_Cons split: if_splits)
  show "0 \<le> fst q \<and> fst q \<le> snd q \<and> snd q \<le> n"
    if "q \<in> set as \<union> {(l, x)} \<union> set ((x, r) # bs)" for q
  proof -
    have "q = (l, x) \<or> q = (x, r) \<or> q \<in> set as \<union> {(l, r)} \<union> set bs"
      using that by auto
    then show ?thesis using b assms(2,3) old(3) [of q] by auto
  qed
qed

lemma covers_merge:
  assumes "covers n (as @ (l, x) # (y, r) # bs)"
  shows "covers n (as @ (l, r) # bs) \<and> x = y \<and> l \<le> x \<and> y \<le> r"
proof -
  note old = covers_middleD [OF assms(1)]
  have b: "0 \<le> l" "l \<le> x" "0 \<le> y" "y \<le> r" "r \<le> n"
    using old(3) [of "(l, x)"] old(3) [of "(y, r)"] by simp_all
  have xy: "x = y" using old(2) by (simp split: if_splits)
  have "covers n (as @ (l, r) # bs)"
  proof (rule covers_middleI)
    show "if as = [] then fst (l, r) = 0
          else fst (hd as) = 0 \<and> snd (last as) = fst (l, r) \<and>
               successively (\<lambda>a b. snd a = fst b) as"
      using old(1) by (simp split: if_splits)
    show "if bs = [] then snd (l, r) = n
          else snd (last bs) = n \<and> snd (l, r) = fst (hd bs) \<and>
               successively (\<lambda>a b. snd a = fst b) bs"
      using old(2) by (simp add: successively_Cons split: if_splits)
    show "0 \<le> fst q \<and> fst q \<le> snd q \<and> snd q \<le> n"
      if "q \<in> set as \<union> {(l, r)} \<union> set bs" for q
    proof -
      have "q = (l, r) \<or> q \<in> set as \<union> {(l, x)} \<union> set ((y, r) # bs)"
        using that by auto
      then show ?thesis using b xy old(3) [of q] by auto
    qed
  qed
  then show ?thesis using b xy by simp
qed

lemma covers_sorted: "covers n rs \<Longrightarrow> sorted (map fst rs)"
proof -
  have "successively (\<lambda>a b. snd a = fst b) rs \<Longrightarrow> (\<And>r. r \<in> set rs \<Longrightarrow> fst r \<le> snd r)
          \<Longrightarrow> sorted (map fst rs)"
  proof (induction rs rule: induct_list012)
    case (3 a b rs)
    have s: "sorted (map fst (b # rs))" using 3 by simp
    have ab: "fst a \<le> fst b" using 3(3) 3(4) [of a] by simp
    have "fst b \<le> y" if "y \<in> set (map fst (b # rs))" for y
      using s that by auto
    then have "fst a \<le> y" if "y \<in> set (map fst (b # rs))" for y
      using ab that by (meson order.trans)
    then show ?case using s by simp
  qed simp_all
  then show "covers n rs \<Longrightarrow> sorted (map fst rs)" unfolding covers_def by blast
qed


lemma ranges_split:
  "memory_segments m = xs @ p # ys
     \<Longrightarrow> ranges m = map (range_of m) xs @ range_of m p # map (range_of m) ys"
  by (simp add: ranges_def)

lemma map_range_of_cong:
  assumes "\<And>it. it \<in> set xs \<Longrightarrow> left (segment_at m' it) = left (segment_at m it) \<and>
                                  right (segment_at m' it) = right (segment_at m it)"
  shows "map (range_of m') xs = map (range_of m) xs"
  using assms by (simp add: range_of_def)

lemma partitions_covers: "partitions n m \<longleftrightarrow> covers (int n) (ranges m)"
  using covers_sorted by (auto simp: partitions_def)

lemma covers_new:
  assumes "memory_size < 2 ^ 31" "MemoryManager_new memory_size = Inr m"
  shows "covers (int memory_size) (ranges m)"
proof -
  have "int memory_size < 2147483648" using assms(1) by simp
  then have "to_int (int memory_size) = int memory_size" by (simp add: to_int_def)
  then have "ranges m = [(0, int memory_size)]"
    using assms(2) by (auto simp: MemoryManager_new_eq ranges_def range_of_def)
  then show ?thesis by (simp add: covers_def)
qed

lemma covers_exact:
  assumes c: "consistent m" and ne: "free_memory_segments m \<noteq> []"
    and sz: "sz = Size (segment_at m (free_memory_segments m ! 0))"
    and a: "Allocate m sz = Inr (result, m')" and cov: "covers n (ranges m)"
  shows "covers n (ranges m')"
proof -
  from Allocate_exact [OF c ne sz] a
  have "memory_segments m' = memory_segments m" "same_ranges (segment_at m) (segment_at m')"
    by auto
  then have "ranges m' = ranges m" by (simp add: ranges_def range_of_def same_ranges_def)
  then show ?thesis using cov by simp
qed

lemma covers_Allocate_split:
  assumes c: "consistent m" and ne: "free_memory_segments m \<noteq> []"
    and sz: "sz < Size (segment_at m (free_memory_segments m ! 0))"
    and a: "Allocate m sz = Inr (result, m')" and cov: "covers n (ranges m)"
    and n: "n < 2 ^ 31"
  shows "covers n (ranges m')"
proof -
  let ?best = "free_memory_segments m ! 0" and ?n = "nodes_created m"
  let ?l = "left (segment_at m ?best)" and ?r = "right (segment_at m ?best)"
  let ?nr = "to_int (int ((to_size_t ?l + sz) mod 2 ^ 64))"
  from Allocate_split [OF c ne sz] a
  have s: "memory_segments m' = list_insert ?best ?n (memory_segments m)"
    "segment_at m' ?n = MemorySegment_new ?l ?nr"
    "left (segment_at m' ?best) = ?nr" "right (segment_at m' ?best) = ?r"
    "\<And>it. it \<noteq> ?n \<and> it \<noteq> ?best \<Longrightarrow>
       left (segment_at m' it) = left (segment_at m it) \<and>
       right (segment_at m' it) = right (segment_at m it)"
    by auto
  obtain xs ys where o: "memory_segments m = xs @ ?best # ys" "?best \<notin> set xs"
    using top_facts(1) [OF c ne] by (meson split_list_first)
  have d: "distinct (xs @ ?best # ys)" and fresh: "?n \<notin> set (xs @ ?best # ys)"
    using c o(1) by (auto simp: consistent_def)
  have o': "memory_segments m' = xs @ ?n # ?best # ys"
    using s(1) o by (simp add: list_insert_split)
  have old: "covers n (map (range_of m) xs @ (?l, ?r) # map (range_of m) ys)"
    using cov ranges_split [OF o(1)] by (simp add: range_of_def)
  have b: "0 \<le> ?l" "?l \<le> ?r" "?r \<le> n"
    using covers_bounds [OF old, of "(?l, ?r)"] by simp_all
  have "Size (segment_at m ?best) = nat (?r - ?l)"
    using b n by (intro Size_exact) simp_all
  then have lt: "?l + int sz < ?r" using sz by linarith
  then have nr: "?nr = ?l + int sz" using b n by (intro new_right_exact) simp_all
  have same: "map (range_of m') zs = map (range_of m) zs" if "set zs \<subseteq> set xs \<union> set ys" for zs
  proof (rule map_range_of_cong)
    fix it assume "it \<in> set zs"
    then have "it \<noteq> ?n \<and> it \<noteq> ?best" using that d fresh by auto
    then show "left (segment_at m' it) = left (segment_at m it) \<and>
               right (segment_at m' it) = right (segment_at m it)" by (rule s(5))
  qed
  have "ranges m' = map (range_of m) xs @ (?l, ?nr) # (?nr, ?r) # map (range_of m) ys"
    using same [of xs] same [of ys] s(2,3,4)
    by (simp add: ranges_def o' range_of_def MemorySegment_new_def)
  moreover have "covers n (map (range_of m) xs @ (?l, ?nr) # (?nr, ?r) # map (range_of m) ys)"
    using old by (rule covers_split) (use nr lt in simp_all)
  ultimately show ?thesis by simp
qed

lemma Free_covers:
  assumes c: "consistent m" and o: "memory_segments m = xs @ p # ys"
    and np: "\<not> is_free m p" and r: "Free m p = Inr m'" and cov: "covers n (ranges m)"
  shows "covers n (ranges m') \<and>
         range_of m' p =
           (if xs \<noteq> [] \<and> is_free m (last xs) then left (segment_at m (last xs))
            else left (segment_at m p),
            if ys \<noteq> [] \<and> is_free m (hd ys) then right (segment_at m (hd ys))
            else right (segment_at m p))"
proof -
  define ml where "ml \<longleftrightarrow> xs \<noteq> [] \<and> is_free m (last xs)"
  define mr where "mr \<longleftrightarrow> ys \<noteq> [] \<and> is_free m (hd ys)"
  define xs' where "xs' = (if ml then butlast xs else xs)"
  define ys' where "ys' = (if mr then tl ys else ys)"
  from Free_spec [OF c o np r]
  obtain u1 u2 where s:
    "memory_segments m' = xs' @ p # ys'"
    "\<And>it. it \<noteq> p \<Longrightarrow> left (segment_at m' it) = left (segment_at m it) \<and>
                        right (segment_at m' it) = right (segment_at m it)"
    "if ml then Unite (segment_at m p) (segment_at m (last xs)) = Inr u1 else u1 = segment_at m p"
    "if mr then Unite u1 (segment_at m (hd ys)) = Inr u2 else u2 = u1"
    "left (segment_at m' p) = left u2" "right (segment_at m' p) = right u2"
    unfolding ml_def mr_def xs'_def ys'_def by blast
  have d: "distinct (xs @ p # ys)" using c o by (simp add: consistent_def)
  let ?f = "range_of m"
  let ?L = "left (segment_at m p)" and ?R = "right (segment_at m p)"
  have old: "covers n (map ?f xs @ (?L, ?R) # map ?f ys)"
    using cov ranges_split [OF o] by (simp add: range_of_def)
  \<comment> \<open>after the left neighbour\<close>
  have one: "covers n (map ?f xs' @ (left u1, ?R) # map ?f ys) \<and> right u1 = ?R"
  proof (cases ml)
    case False
    then show ?thesis using old s(3) by (simp add: xs'_def)
  next
    case True
    then have xs: "xs = butlast xs @ [last xs]" by (simp add: ml_def)
    let ?l = "left (segment_at m (last xs))" and ?r = "right (segment_at m (last xs))"
    have "map ?f xs = map ?f (butlast xs) @ [(?l, ?r)]"
      by (subst xs) (simp add: range_of_def)
    then have both: "covers n (map ?f (butlast xs) @ (?l, ?r) # (?L, ?R) # map ?f ys)"
      using old by simp
    note m = covers_merge [OF both]
    have u: "Unite (segment_at m p) (segment_at m (last xs)) = Inr u1" using s(3) True by simp
    have "left u1 = ?l \<and> right u1 = ?R"
      using Unite_left_neighbour [OF _ u] m by simp
    then show ?thesis using m True by (simp add: xs'_def)
  qed
  \<comment> \<open>after the right neighbour\<close>
  have l1: "left u1 = (if ml then left (segment_at m (last xs)) else ?L)"
  proof (cases ml)
    case False
    then show ?thesis using s(3) by simp
  next
    case True
    then have xs: "xs = butlast xs @ [last xs]" by (simp add: ml_def)
    let ?l = "left (segment_at m (last xs))" and ?r = "right (segment_at m (last xs))"
    have "map ?f xs = map ?f (butlast xs) @ [(?l, ?r)]"
      by (subst xs) (simp add: range_of_def)
    then have both: "covers n (map ?f (butlast xs) @ (?l, ?r) # (?L, ?R) # map ?f ys)"
      using old by simp
    note m = covers_merge [OF both]
    have u: "Unite (segment_at m p) (segment_at m (last xs)) = Inr u1" using s(3) True by simp
    show ?thesis using Unite_left_neighbour [OF _ u] m True by simp
  qed
  have r2: "left u2 = left u1 \<and>
      right u2 = (if mr then right (segment_at m (hd ys)) else ?R)"
  proof (cases mr)
    case False
    then show ?thesis using one s(4) by simp
  next
    case True
    then have ys: "ys = hd ys # tl ys" by (simp add: mr_def)
    let ?l = "left (segment_at m (hd ys))" and ?r = "right (segment_at m (hd ys))"
    have "map ?f ys = (?l, ?r) # map ?f (tl ys)"
      by (subst ys) (simp add: range_of_def)
    then have both: "covers n (map ?f xs' @ (left u1, ?R) # (?l, ?r) # map ?f (tl ys))"
      using one by simp
    note m = covers_merge [OF both]
    have u: "Unite u1 (segment_at m (hd ys)) = Inr u2" using s(4) True by simp
    show ?thesis using Unite_right_neighbour [OF _ _ _ u] m one True by simp
  qed
  have two: "covers n (map ?f xs' @ (left u2, right u2) # map ?f ys')"
  proof (cases mr)
    case False
    then show ?thesis using one s(4) by (simp add: ys'_def)
  next
    case True
    then have ys: "ys = hd ys # tl ys" by (simp add: mr_def)
    let ?l = "left (segment_at m (hd ys))" and ?r = "right (segment_at m (hd ys))"
    have "map ?f ys = (?l, ?r) # map ?f (tl ys)"
      by (subst ys) (simp add: range_of_def)
    then have both: "covers n (map ?f xs' @ (left u1, ?R) # (?l, ?r) # map ?f (tl ys))"
      using one by simp
    note m = covers_merge [OF both]
    have u: "Unite u1 (segment_at m (hd ys)) = Inr u2" using s(4) True by simp
    have "left u2 = left u1 \<and> right u2 = ?r"
      using Unite_right_neighbour [OF _ _ _ u] m one by simp
    then show ?thesis using m True by (simp add: ys'_def)
  qed
  have sub: "set xs' \<subseteq> set xs" "set ys' \<subseteq> set ys"
    by (auto simp: xs'_def ys'_def mr_def dest: in_set_butlastD list.set_sel(2))
  have same: "map (range_of m') zs = map ?f zs" if "set zs \<subseteq> set xs \<union> set ys" for zs
  proof (rule map_range_of_cong)
    fix it assume "it \<in> set zs"
    then have "it \<noteq> p" using that d by auto
    then show "left (segment_at m' it) = left (segment_at m it) \<and>
               right (segment_at m' it) = right (segment_at m it)" by (rule s(2))
  qed
  have sx: "map (range_of m') xs' = map ?f xs'" using same [of xs'] sub by blast
  have sy: "map (range_of m') ys' = map ?f ys'" using same [of ys'] sub by blast
  have sp: "range_of m' p = (left u2, right u2)" using s(5,6) by (simp add: range_of_def)
  have "ranges m' = map ?f xs' @ (left u2, right u2) # map ?f ys'"
    unfolding ranges_def s(1) map_append list.map sx sy sp ..
  then have "covers n (ranges m')" using two by simp
  moreover have "range_of m' p =
      (if ml then left (segment_at m (last xs)) else ?L,
       if mr then right (segment_at m (hd ys)) else ?R)"
    using r2 l1 sp by simp
  ultimately show ?thesis by (simp add: ml_def mr_def)
qed

lemma to_int_less: "to_int x < 2 ^ 31"
proof -
  have "(x + 2147483648) mod 4294967296 < 4294967296" by simp
  then show ?thesis by (simp add: to_int_def)
qed

lemma covers_new_int:
  assumes "0 \<le> to_int (int memory_size)" "MemoryManager_new memory_size = Inr m"
  shows "covers (to_int (int memory_size)) (ranges m)"
proof -
  have "ranges m = [(0, to_int (int memory_size))]"
    using assms(2) by (auto simp: MemoryManager_new_eq ranges_def range_of_def)
  then show ?thesis using assms(1) by (simp add: covers_def)
qed

lemma reachable_covers_int:
  assumes n: "0 \<le> to_int (int memory_size)"
  shows "reachable memory_size m \<Longrightarrow> covers (to_int (int memory_size)) (ranges m)"
proof (induction rule: reachable.induct)
  case (constructed m)
  then show ?case using covers_new_int [OF n] by simp
next
  case (allocated m sz result m')
  have c: "consistent m" using allocated.hyps(1) by (rule reachable_consistent)
  note n' = to_int_less [of "int memory_size"]
  show ?case
  proof (rule Allocate_cases [OF c, of sz])
    assume "Allocate m sz = Inr (None, m)"
    then show ?thesis using allocated by simp
  next
    assume "Allocate m sz = Inr (None, m)"
    then show ?thesis using allocated by simp
  next
    fix m2 assume a: "free_memory_segments m \<noteq> []"
      "sz = Size (segment_at m (free_memory_segments m ! 0))"
    show ?thesis by (rule covers_exact [OF c a allocated.hyps(2) allocated.IH])
  next
    fix m2 assume a: "free_memory_segments m \<noteq> []"
      "sz < Size (segment_at m (free_memory_segments m ! 0))"
    show ?thesis by (rule covers_Allocate_split [OF c a allocated.hyps(2) allocated.IH n'])
  qed
next
  case (freed m p m')
  have c: "consistent m" using freed.hyps(1) by (rule reachable_consistent)
  obtain xs ys where o: "memory_segments m = xs @ p # ys"
    using freed.hyps(2) by (auto dest: split_list)
  show ?case using Free_covers [OF c o freed.hyps(3,4) freed.IH] by simp
qed

lemma reachable_covers:
  assumes n: "memory_size < 2 ^ 31"
  shows "reachable memory_size m \<Longrightarrow> covers (int memory_size) (ranges m)"
proof -
  have "int memory_size < 2147483648" using n by simp
  then have "to_int (int memory_size) = int memory_size" by (simp add: to_int_def)
  then show "reachable memory_size m \<Longrightarrow> covers (int memory_size) (ranges m)"
    using reachable_covers_int [of memory_size m] by simp
qed

section \<open>Allocate, then Free\<close>

lemma example_two_free_steps:
  "(case Allocate example_split 1 of
      Inl e \<Rightarrow> False
    | Inr (result, m') \<Rightarrow> result = Some 2 \<and> 1 \<in> set (memory_segments m') \<and>
        \<not> is_free m' 1 \<and> Free m' 1 = Inr example_two_free)"
  by (simp add: example_split_def example_two_free_def heap_eval manager_eval is_free_def
        fun_upd_twist)

lemma example_two_free_reachable: "reachable 10 example_two_free"
proof -
  obtain m' where m': "Allocate example_split 1 = Inr (Some 2, m')"
    "1 \<in> set (memory_segments m')" "\<not> is_free m' 1" "Free m' 1 = Inr example_two_free"
    using example_two_free_steps by (auto split: sum.splits)
  have "reachable 10 m'" using example_split_reachable m'(1) by (rule reachable.allocated)
  then show ?thesis using m'(2,3,4) by (rule reachable.freed)
qed

lemma Size_positive: "0 < Size seg \<Longrightarrow> left seg \<noteq> right seg"
  by (auto simp: Size_def to_int_def to_size_t_def)

lemma free_ranges_layout: "free_ranges m = map fst (filter snd (layout m))"
  by (simp add: free_ranges_def layout_def filter_map comp_def)

lemma layout_cong:
  assumes "consistent m" "consistent m'"
    and "set xs \<subseteq> set (memory_segments m)" "set xs \<subseteq> set (memory_segments m')"
    and "\<And>it. it \<in> set xs \<Longrightarrow> range_of m' it = range_of m it"
    and "\<And>it. it \<in> set xs \<Longrightarrow>
           it \<in> set (free_memory_segments m') \<longleftrightarrow> it \<in> set (free_memory_segments m)"
  shows "map (\<lambda>it. (range_of m' it, is_free m' it)) xs = map (\<lambda>it. (range_of m it, is_free m it)) xs"
proof -
  have "is_free m' it = is_free m it" if "it \<in> set xs" for it
    using that assms(3,4,6) free_iff_heap [OF assms(1), of it] free_iff_heap [OF assms(2), of it]
    by blast
  then show ?thesis using assms(5) by simp
qed

lemma round_trip_exact:
  assumes c: "consistent m" and na: "no_adjacent_free m" and ne: "free_memory_segments m \<noteq> []"
    and sz: "sz = Size (segment_at m (free_memory_segments m ! 0))"
    and a: "Allocate m sz = Inr (Some it, m')" and f: "Free m' it = Inr m''"
  shows "layout m'' = layout m"
proof -
  let ?best = "free_memory_segments m ! 0"
  from Allocate_exact [OF c ne sz] a
  have s: "it = ?best" "consistent m'" "memory_segments m' = memory_segments m"
    "set (free_memory_segments m') = set (free_memory_segments m) - {?best}"
    "same_ranges (segment_at m) (segment_at m')" by auto
  note tf = top_facts [OF c ne]
  obtain xs ys where o: "memory_segments m = xs @ ?best # ys"
    using tf(1) by (auto dest: split_list)
  have o': "memory_segments m' = xs @ ?best # ys" using s(3) o by simp
  have d: "distinct (xs @ ?best # ys)" using c o by (simp add: consistent_def)
  have fb: "is_free m ?best" using free_iff_heap [OF c tf(1)] tf(3) by simp
  have np: "\<not> is_free m' ?best" using free_iff_heap [OF s(2), of ?best] s(3,4) tf(1) by simp
  have sub: "is_free m x" if "x \<in> set (memory_segments m)" "is_free m' x" for x
    using that free_iff_heap [OF c, of x] free_iff_heap [OF s(2), of x] s(3,4) by auto
  have nl: "\<not> (xs \<noteq> [] \<and> is_free m' (last xs))"
  proof
    assume x: "xs \<noteq> [] \<and> is_free m' (last xs)"
    then have "is_free m (last xs)" using sub [of "last xs"] o by simp
    then show False
      using na fb x by (simp add: no_adjacent_free_def o successively_append_iff)
  qed
  have nr: "\<not> (ys \<noteq> [] \<and> is_free m' (hd ys))"
  proof
    assume y: "ys \<noteq> [] \<and> is_free m' (hd ys)"
    then have "is_free m (hd ys)" using sub [of "hd ys"] o by simp
    then show False
      using na fb y by (simp add: no_adjacent_free_def o successively_append_iff successively_Cons)
  qed
  from Free_spec [OF s(2) o' np f [unfolded s(1)]] nl nr
  have t: "consistent m''" "memory_segments m'' = xs @ ?best # ys"
    "set (free_memory_segments m'') = insert ?best (set (free_memory_segments m'))"
    "\<And>x. x \<noteq> ?best \<Longrightarrow> left (segment_at m'' x) = left (segment_at m' x) \<and>
                          right (segment_at m'' x) = right (segment_at m' x)"
    "left (segment_at m'' ?best) = left (segment_at m' ?best)"
    "right (segment_at m'' ?best) = right (segment_at m' ?best)"
    by auto
  have r: "range_of m'' x = range_of m x" for x
    using t(4) [of x] t(5,6) s(5) by (cases "x = ?best") (auto simp: range_of_def same_ranges_def)
  have h: "set (free_memory_segments m'') = set (free_memory_segments m)"
    using t(3) s(4) tf(3) by auto
  have "map (\<lambda>it. (range_of m'' it, is_free m'' it)) (memory_segments m)
      = map (\<lambda>it. (range_of m it, is_free m it)) (memory_segments m)"
    by (rule layout_cong [OF c t(1)]) (simp_all add: o t(2) r h)
  then show ?thesis by (simp add: layout_def t(2) o)
qed

lemma round_trip_split:
  assumes c: "consistent m" and na: "no_adjacent_free m" and ne: "free_memory_segments m \<noteq> []"
    and sz: "sz < Size (segment_at m (free_memory_segments m ! 0))"
    and a: "Allocate m sz = Inr (Some it, m')" and f: "Free m' it = Inr m''"
  shows "layout m'' = layout m"
proof -
  let ?best = "free_memory_segments m ! 0" and ?n = "nodes_created m"
  let ?l = "left (segment_at m ?best)" and ?r = "right (segment_at m ?best)"
  let ?nr = "to_int (int ((to_size_t ?l + sz) mod 2 ^ 64))"
  from Allocate_split [OF c ne sz] a
  have s: "it = ?n" "consistent m'" "memory_segments m' = list_insert ?best ?n (memory_segments m)"
    "set (free_memory_segments m') = set (free_memory_segments m)"
    "segment_at m' ?n = MemorySegment_new ?l ?nr"
    "left (segment_at m' ?best) = ?nr" "right (segment_at m' ?best) = ?r"
    "\<And>x. x \<noteq> ?n \<and> x \<noteq> ?best \<Longrightarrow>
       left (segment_at m' x) = left (segment_at m x) \<and>
       right (segment_at m' x) = right (segment_at m x)"
    by auto
  note tf = top_facts [OF c ne]
  obtain xs ys where o: "memory_segments m = xs @ ?best # ys" "?best \<notin> set xs"
    using tf(1) by (meson split_list_first)
  have o': "memory_segments m' = xs @ ?n # ?best # ys"
    using s(3) o by (simp add: list_insert_split)
  have d: "distinct (xs @ ?best # ys)" and fresh: "?n \<notin> set (xs @ ?best # ys)"
    using c o(1) by (auto simp: consistent_def)
  have fb: "is_free m ?best" using free_iff_heap [OF c tf(1)] tf(3) by simp
  have fb': "is_free m' ?best" using free_iff_heap [OF s(2), of ?best] s(4) tf(3) o' by simp
  have np: "\<not> is_free m' ?n" using s(5) by (simp add: is_free_def MemorySegment_new_def)
  have nl: "\<not> (xs \<noteq> [] \<and> is_free m' (last xs))"
  proof
    assume x: "xs \<noteq> [] \<and> is_free m' (last xs)"
    then have "last xs \<in> set (free_memory_segments m)"
      using free_iff_heap [OF s(2), of "last xs"] o' s(4) by simp
    then have "is_free m (last xs)" using free_iff_heap [OF c, of "last xs"] o x by simp
    then show False
      using na fb x by (simp add: no_adjacent_free_def o successively_append_iff)
  qed
  have lr: "?l \<noteq> ?r" using sz by (intro Size_positive) simp
  have u: "Unite (segment_at m' ?n) (segment_at m' ?best) = Inr (MemorySegment_new ?l ?r)"
    using lr s(5,6,7) by (simp add: Unite_def MemorySegment_new_def)
  from Free_spec [OF s(2) o' np f [unfolded s(1)]] nl fb' u
  have t: "consistent m''" "memory_segments m'' = xs @ ?n # ys"
    "set (free_memory_segments m'') = insert ?n (set (free_memory_segments m') - {?best})"
    "\<And>x. x \<noteq> ?n \<Longrightarrow> left (segment_at m'' x) = left (segment_at m' x) \<and>
                       right (segment_at m'' x) = right (segment_at m' x)"
    "left (segment_at m'' ?n) = ?l" "right (segment_at m'' ?n) = ?r"
    by (auto simp: MemorySegment_new_def)
  have rest: "map (\<lambda>it. (range_of m'' it, is_free m'' it)) zs
            = map (\<lambda>it. (range_of m it, is_free m it)) zs"
    if z: "set zs \<subseteq> set xs \<union> set ys" for zs
  proof (rule layout_cong [OF c t(1)])
    show "set zs \<subseteq> set (memory_segments m)" "set zs \<subseteq> set (memory_segments m'')"
      using z by (auto simp: o t(2))
    fix x assume "x \<in> set zs"
    then have x: "x \<noteq> ?n" "x \<noteq> ?best" using z d fresh by auto
    show "range_of m'' x = range_of m x"
      using t(4) [of x] s(8) [of x] x by (simp add: range_of_def)
    show "x \<in> set (free_memory_segments m'') \<longleftrightarrow> x \<in> set (free_memory_segments m)"
      using x by (simp add: t(3) s(4))
  qed
  have "is_free m'' ?n" using free_iff_heap [OF t(1), of ?n] t(2,3) by simp
  then have "(range_of m'' ?n, is_free m'' ?n) = (range_of m ?best, is_free m ?best)"
    using t(5,6) fb by (simp add: range_of_def)
  then show ?thesis
    using rest [of xs] rest [of ys] by (simp add: layout_def t(2) o)
qed

text \<open>
  Whenever \<^verbatim>\<open>Free\<close> returns, the round trip restores the ranges of the sequence and
  their free marks.
\<close>

lemma round_trip_when_Free_returns:
  assumes "reachable memory_size m" "Allocate m sz = Inr (Some it, m')" "Free m' it = Inr m''"
  shows "layout m'' = layout m \<and> free_ranges m'' = free_ranges m"
proof -
  have c: "consistent m" using assms(1) by (rule reachable_consistent)
  have na: "no_adjacent_free m" using assms(1) by (rule reachable_no_adjacent_free)
  have "layout m'' = layout m"
  proof (rule Allocate_cases [OF c, of sz])
    assume "Allocate m sz = Inr (None, m)"
    then show ?thesis using assms(2) by simp
  next
    assume "Allocate m sz = Inr (None, m)"
    then show ?thesis using assms(2) by simp
  next
    fix m2 assume "free_memory_segments m \<noteq> []"
      "sz = Size (segment_at m (free_memory_segments m ! 0))"
    then show ?thesis using round_trip_exact [OF c na _ _ assms(2,3)] by simp
  next
    fix m2 assume "free_memory_segments m \<noteq> []"
      "sz < Size (segment_at m (free_memory_segments m ! 0))"
    then show ?thesis using round_trip_split [OF c na _ _ assms(2,3)] by simp
  qed
  then show ?thesis by (simp add: free_ranges_layout)
qed

section \<open>Every call returns\<close>

lemma ranges_exact:
  assumes c: "consistent m" and ne: "free_memory_segments m \<noteq> []"
    and sz: "sz = Size (segment_at m (free_memory_segments m ! 0))"
    and a: "Allocate m sz = Inr (result, m')"
  shows "ranges m' = ranges m"
proof -
  from Allocate_exact [OF c ne sz] a
  have "memory_segments m' = memory_segments m" "same_ranges (segment_at m) (segment_at m')"
    by auto
  then show ?thesis by (simp add: ranges_def range_of_def same_ranges_def)
qed

lemma reachable_single:
  assumes n: "to_int (int memory_size) < 0"
  shows "reachable memory_size m \<Longrightarrow> ranges m = [(0, to_int (int memory_size))]"
proof (induction rule: reachable.induct)
  case (constructed m)
  then show ?case by (auto simp: MemoryManager_new_eq ranges_def range_of_def)
next
  case (allocated m sz result m')
  have c: "consistent m" using allocated.hyps(1) by (rule reachable_consistent)
  show ?case
  proof (rule Allocate_cases [OF c, of sz])
    assume "Allocate m sz = Inr (None, m)"
    then show ?thesis using allocated by simp
  next
    assume "Allocate m sz = Inr (None, m)"
    then show ?thesis using allocated by simp
  next
    fix m2 assume a: "free_memory_segments m \<noteq> []"
      "sz = Size (segment_at m (free_memory_segments m ! 0))"
    show ?thesis using ranges_exact [OF c a allocated.hyps(2)] allocated.IH by simp
  next
    fix m2 assume a: "free_memory_segments m \<noteq> []"
      "sz < Size (segment_at m (free_memory_segments m ! 0))"
    have "free_memory_segments m ! 0 \<in> set (memory_segments m)"
      using top_facts [OF c a(1)] by simp
    then have "range_of m (free_memory_segments m ! 0) \<in> set (ranges m)"
      by (simp add: ranges_def)
    then have "range_of m (free_memory_segments m ! 0) = (0, to_int (int memory_size))"
      using allocated.IH by simp
    then have "Size (segment_at m (free_memory_segments m ! 0)) = 0"
      using n by (simp add: range_of_def Size_def)
    then show ?thesis using a(2) by simp
  qed
next
  case (freed m p m')
  have c: "consistent m" using freed.hyps(1) by (rule reachable_consistent)
  obtain xs ys where o: "memory_segments m = xs @ p # ys"
    using freed.hyps(2) by (auto dest: split_list)
  have "length (memory_segments m) = 1"
    using freed.IH by (metis length_map ranges_def length_Cons list.size(3) One_nat_def)
  then have e: "xs = []" "ys = []" using o by auto
  from Free_spec [OF c o freed.hyps(3,4)] e
  have "memory_segments m' = [p]" "left (segment_at m' p) = left (segment_at m p)"
    "right (segment_at m' p) = right (segment_at m p)" by auto
  then show ?case using freed.IH o e by (simp add: ranges_def range_of_def)
qed

lemma reachable_well_laid: "reachable memory_size m \<Longrightarrow> well_laid memory_size m"
  using reachable_covers_int [of memory_size m] reachable_single [of memory_size m]
  by (simp add: well_laid_def)

lemma Allocate_returns:
  assumes "reachable memory_size m"
  shows "\<exists>result m'. Allocate m sz = Inr (result, m') \<and> reachable memory_size m'"
proof -
  obtain result m' where a: "Allocate m sz = Inr (result, m')"
    using Allocate_total [OF reachable_consistent [OF assms]] by blast
  then show ?thesis using reachable.allocated [OF assms a] by blast
qed

text \<open>
  \<^verbatim>\<open>Free\<close> of an allocated segment of the sequence returns, in every reachable state:
  the free neighbours touch the segment, so \<^verbatim>\<open>Unite\<close> does not throw. The freed
  segment takes the range of itself and its free neighbours.
\<close>

lemma Free_returns_reachable:
  assumes r: "reachable memory_size m" and o: "memory_segments m = xs @ p # ys"
    and np: "\<not> is_free m p"
  shows "\<exists>m'. Free m p = Inr m' \<and> reachable memory_size m' \<and>
           range_of m' p =
             (if xs \<noteq> [] \<and> is_free m (last xs) then left (segment_at m (last xs))
              else left (segment_at m p),
              if ys \<noteq> [] \<and> is_free m (hd ys) then right (segment_at m (hd ys))
              else right (segment_at m p))"
proof -
  have c: "consistent m" using r by (rule reachable_consistent)
  have pin: "p \<in> set (memory_segments m)" by (simp add: o)
  show ?thesis
  proof (cases "0 \<le> to_int (int memory_size)")
    case True
    let ?f = "range_of m"
    have cov: "covers (to_int (int memory_size)) (ranges m)"
      using reachable_covers_int [OF True r] .
    then have cv: "covers (to_int (int memory_size)) (map ?f xs @ ?f p # map ?f ys)"
      by (simp add: ranges_split [OF o])
    note md = covers_middleD [OF cv]
    have l: "right (segment_at m (last xs)) = left (segment_at m p)" if "xs \<noteq> []"
      using md(1) that by (simp add: last_map range_of_def)
    have rr: "right (segment_at m p) = left (segment_at m (hd ys))" if "ys \<noteq> []"
      using md(2) that by (simp add: hd_map range_of_def)
    obtain m' where f: "Free m p = Inr m'"
      using Free_returns [OF c o np] l rr by blast
    have "reachable memory_size m'" using reachable.freed [OF r pin np f] .
    then show ?thesis using f Free_covers [OF c o np f cov] by simp
  next
    case False
    then have "ranges m = [(0, to_int (int memory_size))]"
      using reachable_single [OF _ r] by simp
    then have "length (memory_segments m) = 1"
      by (metis length_map ranges_def length_Cons list.size(3) One_nat_def)
    then have e: "xs = []" "ys = []" using o by auto
    obtain m' where f: "Free m p = Inr m'"
      using Free_returns [OF c o np] e by auto
    have "reachable memory_size m'" using reachable.freed [OF r pin np f] .
    moreover from Free_spec [OF c o np f] e
    have "left (segment_at m' p) = left (segment_at m p)"
      "right (segment_at m' p) = right (segment_at m p)" by auto
    ultimately show ?thesis using f e by (simp add: range_of_def)
  qed
qed

subsection \<open>States of a manager of 10 cells\<close>

lemma example_apart_steps:
  "(case Allocate example_split 3 of
      Inl e \<Rightarrow> False
    | Inr (result, m') \<Rightarrow> result = Some 2 \<and> 1 \<in> set (memory_segments m') \<and>
        \<not> is_free m' 1 \<and> Free m' 1 = Inr example_apart)"
  by (simp add: example_split_def example_apart_def heap_eval manager_eval is_free_def
        fun_upd_twist)

lemma example_apart_reachable: "reachable 10 example_apart"
proof -
  obtain m' where m': "Allocate example_split 3 = Inr (Some 2, m')"
    "1 \<in> set (memory_segments m')" "\<not> is_free m' 1" "Free m' 1 = Inr example_apart"
    using example_apart_steps by (auto split: sum.splits)
  have "reachable 10 m'" using example_split_reachable m'(1) by (rule reachable.allocated)
  then show ?thesis using m'(2,3,4) by (rule reachable.freed)
qed

text \<open>
  \<^verbatim>\<open>Free\<close> of the segment between two free ones: the left neighbour is in the last of
  two heap slots, where \<^verbatim>\<open>erase\<close> reads the slot it has popped.
\<close>

lemma example_whole_Free: "Free example_apart 2 = Inr example_whole"
  by (simp add: example_apart_def example_whole_def heap_eval manager_eval is_free_def
        fun_upd_twist)

lemma example_whole_reachable: "reachable 10 example_whole"
proof (rule reachable.freed [OF example_apart_reachable _ _ example_whole_Free])
  show "2 \<in> set (memory_segments example_apart)" by (simp add: example_apart_def)
  show "\<not> is_free example_apart 2" by (simp add: example_apart_def is_free_def)
qed



section \<open>Allocate\<close>

lemma Size_cong:
  "left a = left b \<Longrightarrow> right a = right b \<Longrightarrow> Size a = Size b"
  by (simp add: Size_def)

text \<open>
  Where \<^verbatim>\<open>Allocate\<close> splits the top, the sum \<^verbatim>\<open>left + size\<close> is the sum of the numbers:
  it stays below the right end of the top.
\<close>

lemma split_point:
  assumes r: "reachable memory_size m" and ne: "free_memory_segments m \<noteq> []"
    and sz: "sz < Size (segment_at m (free_memory_segments m ! 0))"
  defines "best \<equiv> free_memory_segments m ! 0"
  shows "to_int (int ((to_size_t (left (segment_at m best)) + sz) mod 2 ^ 64))
           = left (segment_at m best) + int sz"
    and "0 \<le> left (segment_at m best)"
    and "left (segment_at m best) + int sz < right (segment_at m best)"
    and "right (segment_at m best) < 2 ^ 31"
proof -
  have c: "consistent m" using r by (rule reachable_consistent)
  have b: "best \<in> set (memory_segments m)" using top_facts(1) [OF c ne] by (simp add: best_def)
  then have in_r: "range_of m best \<in> set (ranges m)" by (simp add: ranges_def)
  have pos: "0 \<le> to_int (int memory_size)"
  proof (rule ccontr)
    assume "\<not> 0 \<le> to_int (int memory_size)"
    then have n: "to_int (int memory_size) < 0" by simp
    then have "range_of m best = (0, to_int (int memory_size))"
      using reachable_single [OF n r] in_r by simp
    then have "Size (segment_at m best) = 0" using n by (simp add: range_of_def Size_def)
    then show False using sz by (simp add: best_def)
  qed
  note cb = covers_bounds [OF reachable_covers_int [OF pos r] in_r]
  note lt = to_int_less [of "int memory_size"]
  show l0: "0 \<le> left (segment_at m best)" using cb by (simp add: range_of_def)
  show r31: "right (segment_at m best) < 2 ^ 31" using cb lt by (simp add: range_of_def)
  have "Size (segment_at m best) = nat (right (segment_at m best) - left (segment_at m best))"
    using cb r31 by (intro Size_exact) (simp_all add: range_of_def)
  then show below: "left (segment_at m best) + int sz < right (segment_at m best)"
    using sz by (simp add: best_def)
  show "to_int (int ((to_size_t (left (segment_at m best)) + sz) mod 2 ^ 64))
           = left (segment_at m best) + int sz"
    using l0 below r31 by (intro new_right_exact) simp_all
qed

text \<open>
  Claim C1. In every reachable state \<^verbatim>\<open>Allocate(s)\<close> returns, with a handle iff some
  free segment of the sequence has \<^verbatim>\<open>Size\<close> at least \<open>s\<close>, and with the null handle when
  the heap is empty. On success the segment it allocates from is free, of the largest
  \<^verbatim>\<open>Size\<close> and the leftmost of that size. The segment of the returned handle is in the
  sequence and out of the heap, has \<^verbatim>\<open>Size\<close> \<open>s\<close> and starts at the left end of that
  segment: on an exact fit it is that segment itself, which leaves the heap; otherwise
  it is a new node \<open>[L, L + s)\<close> inserted before it, and the segment stays in the heap
  as \<open>[L + s, R)\<close>.
\<close>

theorem Allocate_takes_largest_leftmost:
  assumes "reachable memory_size m"
  shows "(\<exists>result m'. Allocate m sz = Inr (result, m')) \<and>
         ((\<exists>it m'. Allocate m sz = Inr (Some it, m')) \<longleftrightarrow>
            (\<exists>f. f \<in> set (memory_segments m) \<and> is_free m f \<and> sz \<le> Size (segment_at m f))) \<and>
         (free_memory_segments m = [] \<longrightarrow> Allocate m sz = Inr (None, m)) \<and>
         (\<forall>it m'. Allocate m sz = Inr (Some it, m') \<longrightarrow>
            (\<exists>best. best_fit m best \<and>
               left (segment_at m' it) = left (segment_at m best) \<and>
               Size (segment_at m' it) = sz \<and>
               it \<in> set (memory_segments m') \<and> \<not> is_free m' it \<and>
               it \<notin> set (free_memory_segments m') \<and>
               (if sz = Size (segment_at m best)
                then it = best \<and> memory_segments m' = memory_segments m \<and>
                     range_of m' it = range_of m best \<and>
                     set (free_memory_segments m') = set (free_memory_segments m) - {best}
                else it \<notin> set (memory_segments m) \<and>
                     memory_segments m' = list_insert best it (memory_segments m) \<and>
                     range_of m' it =
                       (left (segment_at m best), left (segment_at m best) + int sz) \<and>
                     range_of m' best =
                       (left (segment_at m best) + int sz, right (segment_at m best)) \<and>
                     is_free m' best \<and>
                     set (free_memory_segments m') = set (free_memory_segments m))))"
proof -
  let ?best = "free_memory_segments m ! 0"
  have c: "consistent m" using assms by (rule reachable_consistent)
  have none_free: "\<not> (f \<in> set (memory_segments m) \<and> is_free m f)"
    if "free_memory_segments m = []" for f
    using free_iff_heap [OF c, of f] that by auto
  have fresh: "nodes_created m \<notin> set (memory_segments m)"
    using c by (auto simp: consistent_def)
  show ?thesis
  proof (rule Allocate_cases [OF c, of sz])
    assume "free_memory_segments m = []" "Allocate m sz = Inr (None, m)"
    then show ?thesis using none_free by auto
  next
    assume a: "free_memory_segments m \<noteq> []" "Size (segment_at m ?best) < sz"
      "Allocate m sz = Inr (None, m)"
    have "\<not> sz \<le> Size (segment_at m f)" if "f \<in> set (memory_segments m) \<and> is_free m f" for f
      using top_best_fit [OF c a(1)] that a(2) unfolding best_fit_def by fastforce
    then show ?thesis using a by auto
  next
    fix m' assume a: "free_memory_segments m \<noteq> []" "sz = Size (segment_at m ?best)"
      "Allocate m sz = Inr (Some ?best, m')"
    note b = top_best_fit [OF c a(1)]
    note tf = top_facts [OF c a(1)]
    have s: "consistent m'" "memory_segments m' = memory_segments m"
      "left (segment_at m' ?best) = left (segment_at m ?best)"
      "right (segment_at m' ?best) = right (segment_at m ?best)"
      "set (free_memory_segments m') = set (free_memory_segments m) - {?best}"
      using Allocate_exact [OF c a(1,2)] a(3) by (auto simp: same_ranges_def)
    have sz': "Size (segment_at m' ?best) = sz"
      using Size_cong [OF s(3,4)] a(2) by simp
    have in': "?best \<in> set (memory_segments m')" using tf(1) s(2) by simp
    have out: "?best \<notin> set (free_memory_segments m')" using s(5) by simp
    have nf: "\<not> is_free m' ?best" using free_iff_heap [OF s(1) in'] out by simp
    have rg: "range_of m' ?best = range_of m ?best" using s(3,4) by (simp add: range_of_def)
    have ex: "\<exists>f. f \<in> set (memory_segments m) \<and> is_free m f \<and> sz \<le> Size (segment_at m f)"
      using b a(2) unfolding best_fit_def by blast
    have "\<exists>best. best_fit m best \<and>
               left (segment_at m' ?best) = left (segment_at m best) \<and>
               Size (segment_at m' ?best) = sz \<and>
               ?best \<in> set (memory_segments m') \<and> \<not> is_free m' ?best \<and>
               ?best \<notin> set (free_memory_segments m') \<and>
               (if sz = Size (segment_at m best)
                then ?best = best \<and> memory_segments m' = memory_segments m \<and>
                     range_of m' ?best = range_of m best \<and>
                     set (free_memory_segments m') = set (free_memory_segments m) - {best}
                else ?best \<notin> set (memory_segments m) \<and>
                     memory_segments m' = list_insert best ?best (memory_segments m) \<and>
                     range_of m' ?best =
                       (left (segment_at m best), left (segment_at m best) + int sz) \<and>
                     range_of m' best =
                       (left (segment_at m best) + int sz, right (segment_at m best)) \<and>
                     is_free m' best \<and>
                     set (free_memory_segments m') = set (free_memory_segments m))"
      using b s(2,3,5) sz' in' out nf rg a(2) by (intro exI [of _ ?best]) simp
    then show ?thesis using a(1,3) ex by auto
  next
    fix m' assume a: "free_memory_segments m \<noteq> []" "sz < Size (segment_at m ?best)"
      "Allocate m sz = Inr (Some (nodes_created m), m')"
    let ?n = "nodes_created m"
    let ?L = "left (segment_at m ?best)" and ?R = "right (segment_at m ?best)"
    note b = top_best_fit [OF c a(1)]
    note tf = top_facts [OF c a(1)]
    note sp = split_point [OF assms a(1,2)]
    have s: "consistent m'"
      "memory_segments m' = list_insert ?best ?n (memory_segments m)"
      "set (free_memory_segments m') = set (free_memory_segments m)"
      "segment_at m' ?n = MemorySegment_new ?L (?L + int sz)"
      "left (segment_at m' ?best) = ?L + int sz"
      "right (segment_at m' ?best) = ?R"
      using Allocate_split [OF c a(1,2)] a(3) sp(1) by auto
    have sz': "Size (segment_at m' ?n) = sz"
    proof -
      have "Size (segment_at m' ?n) = nat (right (segment_at m' ?n) - left (segment_at m' ?n))"
        using sp(2,3,4) by (intro Size_exact) (simp_all add: s(4) MemorySegment_new_def)
      then show ?thesis by (simp add: s(4) MemorySegment_new_def)
    qed
    have in': "?n \<in> set (memory_segments m')" "?best \<in> set (memory_segments m')"
      using s(2) tf(1) by simp_all
    have nf: "\<not> is_free m' ?n" using s(4) by (simp add: is_free_def MemorySegment_new_def)
    then have out: "?n \<notin> set (free_memory_segments m')"
      using free_iff_heap [OF s(1) in'(1)] by simp
    have fb: "is_free m' ?best" using free_iff_heap [OF s(1) in'(2)] s(3) tf(3) by simp
    have rn: "range_of m' ?n = (?L, ?L + int sz)"
      using s(4) by (simp add: range_of_def MemorySegment_new_def)
    have rb: "range_of m' ?best = (?L + int sz, ?R)" using s(5,6) by (simp add: range_of_def)
    have ln: "left (segment_at m' ?n) = ?L" using s(4) by (simp add: MemorySegment_new_def)
    have ex: "\<exists>f. f \<in> set (memory_segments m) \<and> is_free m f \<and> sz \<le> Size (segment_at m f)"
      using b a(2) unfolding best_fit_def by (meson less_imp_le)
    have ne: "sz \<noteq> Size (segment_at m ?best)" using a(2) by simp
    have "\<exists>best. best_fit m best \<and>
               left (segment_at m' ?n) = left (segment_at m best) \<and>
               Size (segment_at m' ?n) = sz \<and>
               ?n \<in> set (memory_segments m') \<and> \<not> is_free m' ?n \<and>
               ?n \<notin> set (free_memory_segments m') \<and>
               (if sz = Size (segment_at m best)
                then ?n = best \<and> memory_segments m' = memory_segments m \<and>
                     range_of m' ?n = range_of m best \<and>
                     set (free_memory_segments m') = set (free_memory_segments m) - {best}
                else ?n \<notin> set (memory_segments m) \<and>
                     memory_segments m' = list_insert best ?n (memory_segments m) \<and>
                     range_of m' ?n =
                       (left (segment_at m best), left (segment_at m best) + int sz) \<and>
                     range_of m' best =
                       (left (segment_at m best) + int sz, right (segment_at m best)) \<and>
                     is_free m' best \<and>
                     set (free_memory_segments m') = set (free_memory_segments m))"
      using b ln sz' in'(1) nf out ne fresh s(2,3) rn rb fb
      by (intro exI [of _ ?best]) simp
    then show ?thesis using a(1,3) ex by auto
  qed
qed

theorem Allocate_takes_largest_leftmost_witness:
  "reachable 10 example_two_free \<and>
   is_free example_two_free 1 \<and> range_of example_two_free 1 = (0, 3) \<and>
   Size (segment_at example_two_free 1) = 3 \<and>
   is_free example_two_free 0 \<and> range_of example_two_free 0 = (4, 10) \<and>
   Size (segment_at example_two_free 0) = 6 \<and> best_fit example_two_free 0 \<and>
   (\<exists>m'. Allocate example_two_free 2 = Inr (Some 3, m') \<and>
      memory_segments m' = [1, 2, 3, 0] \<and> range_of m' 3 = (4, 6) \<and>
      range_of m' 0 = (6, 10) \<and> \<not> is_free m' 3 \<and> is_free m' 0 \<and> is_free m' 1 \<and>
      Size (segment_at m' 3) = 2)"
proof -
  note r = example_two_free_reachable
  have f: "is_free example_two_free 1" "range_of example_two_free 1 = (0, 3)"
    "Size (segment_at example_two_free 1) = 3"
    "is_free example_two_free 0" "range_of example_two_free 0 = (4, 10)"
    "Size (segment_at example_two_free 0) = 6"
    by (simp_all add: example_two_free_def is_free_def range_of_def Size_def to_int_def
          to_size_t_def)
  have b: "best_fit example_two_free 0"
    by (auto simp: best_fit_def example_two_free_def is_free_def Size_def to_int_def
          to_size_t_def)
  obtain m' where a: "Allocate example_two_free 2 = Inr (Some 3, m')"
    "memory_segments m' = [1, 2, 3, 0]" "range_of m' 3 = (4, 6)" "range_of m' 0 = (6, 10)"
    "is_free m' 0" "is_free m' 1"
    by (simp add: example_two_free_def heap_eval manager_eval is_free_def range_of_def
          fun_upd_twist)
  have "\<not> is_free m' 3 \<and> Size (segment_at m' 3) = 2"
    using Allocate_takes_largest_leftmost [OF r, of 2] a(1) by auto
  then show ?thesis using r f b a by blast
qed

text \<open>
  Claim C9. In every reachable state \<^verbatim>\<open>Allocate(s)\<close> returns a result and no error.
  When the result is the null handle, the state it leaves is the state it was called
  on: segment sequence, heap and every \<^verbatim>\<open>heap_index\<close> are unchanged. This is the case
  exactly when the heap is empty or its top is smaller than \<open>s\<close>.
\<close>

theorem failed_Allocate_changes_nothing:
  assumes "reachable memory_size m"
  shows "(\<exists>result m'. Allocate m sz = Inr (result, m')) \<and>
         (\<forall>m'. Allocate m sz = Inr (None, m') \<longrightarrow> m' = m) \<and>
         (Allocate m sz = Inr (None, m) \<longleftrightarrow>
            free_memory_segments m = [] \<or>
            Size (segment_at m (free_memory_segments m ! 0)) < sz)"
proof -
  have c: "consistent m" using assms by (rule reachable_consistent)
  show ?thesis by (rule Allocate_cases [OF c, of sz]) auto
qed

theorem failed_Allocate_changes_nothing_witness:
  "reachable 10 example_two_free \<and> free_memory_segments example_two_free = [0, 1] \<and>
   Size (segment_at example_two_free (free_memory_segments example_two_free ! 0)) = 6 \<and>
   Allocate example_two_free 7 = Inr (None, example_two_free)"
proof -
  have "Size (segment_at example_two_free (free_memory_segments example_two_free ! 0)) = 6"
    "free_memory_segments example_two_free = [0, 1]"
    by (simp_all add: example_two_free_def Size_def to_int_def to_size_t_def)
  then show ?thesis
    using failed_Allocate_changes_nothing [OF example_two_free_reachable, of 7]
      example_two_free_reachable by simp
qed

text \<open>
  Claim C10. In every reachable state \<^verbatim>\<open>Allocate(0)\<close> returns the null handle iff the
  heap is empty. On a nonempty heap it returns a handle to an allocated segment: the
  top itself when its \<^verbatim>\<open>Size\<close> is 0, and otherwise a new node \<open>[L, L)\<close> inserted before
  the top, \<open>L\<close> the left end of the top; every segment of the sequence keeps its
  range, so no address is consumed.
\<close>

theorem Allocate_zero_takes_no_space:
  assumes "reachable memory_size m"
  shows "(free_memory_segments m = [] \<longrightarrow> Allocate m 0 = Inr (None, m)) \<and>
         (\<forall>m'. Allocate m 0 = Inr (None, m') \<longrightarrow> free_memory_segments m = []) \<and>
         (free_memory_segments m \<noteq> [] \<longrightarrow>
            (\<exists>it m'. Allocate m 0 = Inr (Some it, m') \<and> \<not> is_free m' it \<and>
               (if Size (segment_at m (free_memory_segments m ! 0)) = 0
                then it = free_memory_segments m ! 0 \<and> memory_segments m' = memory_segments m
                else it \<notin> set (memory_segments m) \<and>
                     memory_segments m' =
                       list_insert (free_memory_segments m ! 0) it (memory_segments m) \<and>
                     left (segment_at m' it) = left (segment_at m (free_memory_segments m ! 0)) \<and>
                     right (segment_at m' it) = left (segment_at m (free_memory_segments m ! 0))) \<and>
               (\<forall>x. x \<in> set (memory_segments m) \<longrightarrow>
                  left (segment_at m' x) = left (segment_at m x) \<and>
                  right (segment_at m' x) = right (segment_at m x))))"
proof -
  let ?best = "free_memory_segments m ! 0" and ?n = "nodes_created m"
  have c: "consistent m" using assms by (rule reachable_consistent)
  have rep: "representable m" using assms by (rule reachable_representable)
  have fresh: "?n \<notin> set (memory_segments m)" using c by (auto simp: consistent_def)
  show ?thesis
  proof (rule Allocate_cases [OF c, of 0])
    assume "free_memory_segments m = []" "Allocate m 0 = Inr (None, m)"
    then show ?thesis by simp
  next
    assume "Size (segment_at m ?best) < 0"
    then show ?thesis by simp
  next
    fix m' assume a: "free_memory_segments m \<noteq> []" "0 = Size (segment_at m ?best)"
      "Allocate m 0 = Inr (Some ?best, m')"
    note s = Allocate_exact [OF c a(1,2)]
    have c': "consistent m'" and o': "memory_segments m' = memory_segments m"
      and h': "?best \<notin> set (free_memory_segments m')"
      and sr: "same_ranges (segment_at m) (segment_at m')"
      using s a(3) by auto
    have "\<not> is_free m' ?best"
      using free_iff_heap [OF c', of ?best] top_facts(1) [OF c a(1)] h' o' by simp
    then show ?thesis using a o' sr by (auto simp: same_ranges_def)
  next
    fix m' assume a: "free_memory_segments m \<noteq> []" "0 < Size (segment_at m ?best)"
      "Allocate m 0 = Inr (Some ?n, m')"
    let ?l = "left (segment_at m ?best)"
    have b: "?best \<in> set (memory_segments m)" using top_facts(1) [OF c a(1)] .
    have nr: "to_int (int ((to_size_t ?l + 0) mod 2 ^ 64)) = ?l"
      using rep b by (intro new_right_zero) (simp add: representable_def)
    have s: "memory_segments m' = list_insert ?best ?n (memory_segments m)"
      "segment_at m' ?n = MemorySegment_new ?l ?l"
      "left (segment_at m' ?best) = ?l"
      "right (segment_at m' ?best) = right (segment_at m ?best)"
      "\<And>it. it \<noteq> ?n \<and> it \<noteq> ?best \<Longrightarrow>
         left (segment_at m' it) = left (segment_at m it) \<and>
         right (segment_at m' it) = right (segment_at m it)"
      using Allocate_split [OF c a(1,2)] a(3) nr by auto
    have "left (segment_at m' x) = left (segment_at m x) \<and>
          right (segment_at m' x) = right (segment_at m x)" if "x \<in> set (memory_segments m)" for x
      using that fresh s(3,4) s(5) [of x] by (cases "x = ?best") auto
    moreover have "\<not> is_free m' ?n" using s(2) by (simp add: is_free_def MemorySegment_new_def)
    ultimately show ?thesis using a s fresh by (auto simp: MemorySegment_new_def)
  qed
qed

theorem Allocate_zero_takes_no_space_witness:
  "reachable 10 example_two_free \<and> free_memory_segments example_two_free = [0, 1] \<and>
   Size (segment_at example_two_free (free_memory_segments example_two_free ! 0)) = 6 \<and>
   range_of example_two_free 0 = (4, 10) \<and>
   (\<exists>it m'. Allocate example_two_free 0 = Inr (Some it, m') \<and> \<not> is_free m' it \<and>
      it \<notin> set (memory_segments example_two_free) \<and>
      memory_segments m' = list_insert 0 it (memory_segments example_two_free) \<and>
      left (segment_at m' it) = 4 \<and> right (segment_at m' it) = 4)"
proof -
  have "Size (segment_at example_two_free (free_memory_segments example_two_free ! 0)) = 6"
    by (simp add: example_two_free_def Size_def to_int_def to_size_t_def)
  moreover have "free_memory_segments example_two_free ! 0 = 0"
    "left (segment_at example_two_free 0) = 4" "free_memory_segments example_two_free \<noteq> []"
    "free_memory_segments example_two_free = [0, 1]" "range_of example_two_free 0 = (4, 10)"
    by (simp_all add: example_two_free_def range_of_def)
  ultimately show ?thesis
    using Allocate_zero_takes_no_space [OF example_two_free_reachable]
      example_two_free_reachable
    by simp blast
qed

section \<open>The invariants of the sequence and of the heap\<close>

lemma MemoryManager_new_returns:
  "\<exists>m. MemoryManager_new memory_size = Inr m \<and> reachable memory_size m"
  using reachable.constructed [of memory_size] by (simp add: MemoryManager_new_eq)

text \<open>
  Claim C3 speaks of every \<open>memory_size\<close>. The constructor makes the first segment with \<^verbatim>\<open>MemorySegment(0, memory_size)\<close>, whose
  parameters are \<^verbatim>\<open>int\<close>. For \<open>memory_size = 2\<^sup>3\<^sup>1\<close> the only segment of the constructed
  state is \<open>[0, -2\<^sup>3\<^sup>1)\<close>, which is no partition of \<open>[0, 2\<^sup>3\<^sup>1)\<close>.
\<close>

theorem huge_memory_size_is_truncated:
  "(case MemoryManager_new (2 ^ 31) of
      Inl e \<Rightarrow> False
    | Inr m \<Rightarrow> reachable (2 ^ 31) m \<and> ranges m = [(0, - (2 ^ 31))] \<and> \<not> partitions (2 ^ 31) m)"
proof -
  obtain m where m: "MemoryManager_new (2 ^ 31) = Inr m" by (simp add: MemoryManager_new_eq)
  have r: "ranges m = [(0, - (2 ^ 31))]"
    using m by (auto simp: MemoryManager_new_eq ranges_def range_of_def to_int_def)
  then have "\<not> partitions (2 ^ 31) m" by (simp add: partitions_def covers_def)
  then show ?thesis using m r reachable.constructed [OF m] by simp
qed

text \<open>
  Claim C3, for the sizes that an \<^verbatim>\<open>int\<close> holds. When \<open>memory_size < 2\<^sup>3\<^sup>1\<close> the
  constructor returns a state, and in every state reached through the constructor,
  \<^verbatim>\<open>Allocate\<close> and \<^verbatim>\<open>Free\<close> the segment sequence partitions \<open>[0, memory_size)\<close>: the
  left ends ascend, each segment ends where the next starts, the first starts at 0 and
  the last ends at \<open>memory_size\<close>. Every \<^verbatim>\<open>Allocate\<close> call and every \<^verbatim>\<open>Free\<close> call on an
  allocated segment of the sequence returns, with a state of which the same holds.
\<close>

theorem segments_partition_memory:
  assumes "memory_size < 2 ^ 31" "reachable memory_size m"
  shows "partitions memory_size m \<and>
         (\<exists>m0. MemoryManager_new memory_size = Inr m0 \<and> partitions memory_size m0) \<and>
         (\<forall>sz. \<exists>result m'. Allocate m sz = Inr (result, m') \<and> partitions memory_size m') \<and>
         (\<forall>it. it \<in> set (memory_segments m) \<and> \<not> is_free m it
            \<longrightarrow> (\<exists>m'. Free m it = Inr m' \<and> partitions memory_size m'))"
proof -
  have p: "partitions memory_size x" if "reachable memory_size x" for x
    using reachable_covers [OF assms(1) that] by (simp add: partitions_covers)
  have "\<exists>m'. Free m it = Inr m' \<and> partitions memory_size m'"
    if a: "it \<in> set (memory_segments m) \<and> \<not> is_free m it" for it
  proof -
    obtain xs ys where "memory_segments m = xs @ it # ys"
      using a by (auto dest: split_list)
    then show ?thesis using Free_returns_reachable [OF assms(2)] a p by blast
  qed
  moreover have "\<exists>result m'. Allocate m sz = Inr (result, m') \<and> partitions memory_size m'" for sz
    using Allocate_returns [OF assms(2), of sz] p by blast
  moreover have "\<exists>m0. MemoryManager_new memory_size = Inr m0 \<and> partitions memory_size m0"
    using MemoryManager_new_returns [of memory_size] p by blast
  ultimately show ?thesis using p [OF assms(2)] by blast
qed

theorem segments_partition_memory_witness:
  "(10 :: nat) < 2 ^ 31 \<and> reachable 10 example_apart \<and> partitions 10 example_apart \<and>
   ranges example_apart = [(0, 3), (3, 6), (6, 10)] \<and>
   2 \<in> set (memory_segments example_apart) \<and> \<not> is_free example_apart 2 \<and>
   Free example_apart 2 = Inr example_whole \<and> partitions 10 example_whole \<and>
   ranges example_whole = [(0, 10)]"
proof -
  have n: "(10 :: nat) < 2 ^ 31" by simp
  note t = segments_partition_memory [OF n example_apart_reachable]
  have a: "2 \<in> set (memory_segments example_apart)" "\<not> is_free example_apart 2"
    "ranges example_apart = [(0, 3), (3, 6), (6, 10)]"
    by (simp_all add: example_apart_def is_free_def ranges_def range_of_def)
  have w: "ranges example_whole = [(0, 10)]"
    by (simp add: example_whole_def ranges_def range_of_def)
  have "\<exists>m'. Free example_apart 2 = Inr m' \<and> partitions 10 m'" using t a(1,2) by blast
  then have "partitions 10 example_whole" using example_whole_Free by simp
  then show ?thesis using n t a w example_whole_Free example_apart_reachable by blast
qed




text \<open>
  Claim C5. In every state reached through the constructor, \<^verbatim>\<open>Allocate\<close> and
  \<^verbatim>\<open>Free\<close>, a segment of the sequence is in the heap of free segments iff its
  \<^verbatim>\<open>heap_index\<close> is not \<^verbatim>\<open>kNullIndex\<close>, and \<^verbatim>\<open>heap_index\<close> is then the slot that holds
  it; every \<^verbatim>\<open>Allocate\<close> call and every \<^verbatim>\<open>Free\<close> call on an allocated segment of the
  sequence returns, with a state of which the same holds. The heap operations keep it
  so on every heap whose elements record their slots: \<^verbatim>\<open>push\<close> returns, and has added
  the element; \<^verbatim>\<open>erase\<close>, as the manager runs it, returns for every slot (at the last
  slot of two or more, when the erased element is not ahead of its parent, as in an
  ordered heap), has removed the element of the erased slot and marked it
  \<^verbatim>\<open>kNullIndex\<close>; all elements record their slots afterwards.
\<close>

theorem heap_index_is_heap_slot:
  assumes "reachable memory_size m"
  shows "heap_membership m \<and>
         (\<forall>sz. \<exists>result m'. Allocate m sz = Inr (result, m') \<and> heap_membership m') \<and>
         (\<forall>it. it \<in> set (memory_segments m) \<and> \<not> is_free m it
            \<longrightarrow> (\<exists>m'. Free m it = Inr m' \<and> heap_membership m')) \<and>
         (\<forall>st v. tracked st \<and> v \<notin> set (snd st) \<longrightarrow>
            (\<exists>k st'. push MemorySegmentSizeCompare MemorySegmentsHeapObserver v st = Inr (k, st') \<and>
               tracked st' \<and> set (snd st') = insert v (set (snd st)))) \<and>
         (\<forall>st i. tracked st \<and> i < length (snd st) \<and>
              (Suc i = length (snd st) \<longrightarrow>
                 i = 0 \<or> \<not> MemorySegmentSizeCompare (fst st) (snd st ! i) (snd st ! Parent i))
            \<longrightarrow> (\<exists>st'. erase_unchecked MemorySegmentSizeCompare MemorySegmentsHeapObserver
                          (Some i) st = Inr st' \<and>
                   tracked st' \<and> set (snd st') = set (snd st) - {snd st ! i} \<and>
                   heap_index (fst st' (snd st ! i)) = kNullIndex))"
proof -
  have h: "heap_membership x" if "reachable memory_size x" for x
    using that by (intro consistent_heap_membership reachable_consistent)
  have "\<exists>m'. Free m it = Inr m' \<and> heap_membership m'"
    if a: "it \<in> set (memory_segments m) \<and> \<not> is_free m it" for it
  proof -
    obtain xs ys where "memory_segments m = xs @ it # ys"
      using a by (auto dest: split_list)
    then show ?thesis using Free_returns_reachable [OF assms] a h by blast
  qed
  moreover have "\<exists>result m'. Allocate m sz = Inr (result, m') \<and> heap_membership m'" for sz
    using Allocate_returns [OF assms, of sz] h by blast
  moreover have "\<exists>k st'. push MemorySegmentSizeCompare MemorySegmentsHeapObserver v st
                    = Inr (k, st') \<and>
               tracked st' \<and> set (snd st') = insert v (set (snd st))"
    if "tracked st \<and> v \<notin> set (snd st)" for st :: "segments \<times> Iterator list" and v
    using that push_tracked [of "fst st" "snd st" v] by simp
  moreover have "\<exists>st'. erase_unchecked MemorySegmentSizeCompare MemorySegmentsHeapObserver
                          (Some i) st = Inr st' \<and>
                   tracked st' \<and> set (snd st') = set (snd st) - {snd st ! i} \<and>
                   heap_index (fst st' (snd st ! i)) = kNullIndex"
    if "tracked st \<and> i < length (snd st) \<and>
        (Suc i = length (snd st) \<longrightarrow>
           i = 0 \<or> \<not> MemorySegmentSizeCompare (fst st) (snd st ! i) (snd st ! Parent i))"
    for st :: "segments \<times> Iterator list" and i
    using that erase_unchecked_tracked [of "fst st" "snd st" i] by simp
  ultimately show ?thesis using h [OF assms] by blast
qed

theorem heap_index_is_heap_slot_witness:
  "reachable 10 example_apart \<and> heap_membership example_apart \<and>
   free_memory_segments example_apart = [0, 1] \<and>
   heap_index (segment_at example_apart 0) = Some 0 \<and>
   heap_index (segment_at example_apart 1) = Some 1 \<and>
   heap_index (segment_at example_apart 2) = kNullIndex \<and>
   Free example_apart 2 = Inr example_whole \<and> heap_membership example_whole \<and>
   free_memory_segments example_whole = [2] \<and>
   heap_index (segment_at example_whole 2) = Some 0"
proof -
  note t = heap_index_is_heap_slot [OF example_apart_reachable]
  have a: "2 \<in> set (memory_segments example_apart)" "\<not> is_free example_apart 2"
    "free_memory_segments example_apart = [0, 1]"
    "heap_index (segment_at example_apart 0) = Some 0"
    "heap_index (segment_at example_apart 1) = Some 1"
    "heap_index (segment_at example_apart 2) = kNullIndex"
    by (simp_all add: example_apart_def is_free_def)
  have w: "free_memory_segments example_whole = [2]"
    "heap_index (segment_at example_whole 2) = Some 0"
    by (simp_all add: example_whole_def)
  have "\<exists>m'. Free example_apart 2 = Inr m' \<and> heap_membership m'" using t a(1,2) by blast
  then have "heap_membership example_whole" using example_whole_Free by simp
  then show ?thesis using t a w example_whole_Free example_apart_reachable by blast
qed

section \<open>The round trip returns\<close>

lemma Allocate_handle:
  assumes c: "consistent m" and a: "Allocate m sz = Inr (Some it, m')"
  shows "it \<in> set (memory_segments m') \<and> \<not> is_free m' it \<and>
         ((it \<in> set (memory_segments m) \<and> is_free m it) \<or> it \<notin> set (memory_segments m))"
proof (rule Allocate_cases [OF c, of sz])
  assume "Allocate m sz = Inr (None, m)"
  then show ?thesis using a by simp
next
  assume "Allocate m sz = Inr (None, m)"
  then show ?thesis using a by simp
next
  let ?best = "free_memory_segments m ! 0"
  fix m2 assume e: "free_memory_segments m \<noteq> []" "sz = Size (segment_at m ?best)"
  note tf = top_facts [OF c e(1)]
  from Allocate_exact [OF c e] a
  have s: "it = ?best" "consistent m'" "memory_segments m' = memory_segments m"
    "set (free_memory_segments m') = set (free_memory_segments m) - {?best}" by auto
  have "\<not> is_free m' ?best" using free_iff_heap [OF s(2), of ?best] s(3,4) tf(1) by simp
  moreover have "is_free m ?best" using free_iff_heap [OF c tf(1)] tf(3) by simp
  ultimately show ?thesis using s tf(1) by simp
next
  let ?best = "free_memory_segments m ! 0"
  fix m2 assume e: "free_memory_segments m \<noteq> []" "sz < Size (segment_at m ?best)"
  from Allocate_split [OF c e] a
  have s: "it = nodes_created m"
    "memory_segments m' = list_insert ?best (nodes_created m) (memory_segments m)"
    "segment_at m' (nodes_created m) =
       MemorySegment_new (left (segment_at m ?best))
         (to_int (int ((to_size_t (left (segment_at m ?best)) + sz) mod 2 ^ 64)))"
    by auto
  have "nodes_created m \<notin> set (memory_segments m)" using c by (auto simp: consistent_def)
  moreover have "\<not> is_free m' (nodes_created m)"
    using s(3) by (simp add: is_free_def MemorySegment_new_def)
  ultimately show ?thesis using s(1,2) by simp
qed

text \<open>
  Claim C7. In every reachable state, when \<^verbatim>\<open>Allocate(s)\<close> returns a handle, \<^verbatim>\<open>Free\<close>
  on that handle returns, and in the state it leaves the free segments have the ranges
  they had before the \<^verbatim>\<open>Allocate\<close>, so they cover the same addresses; the whole
  sequence has the ranges and free marks it had.
\<close>

theorem Free_after_Allocate_restores_free_ranges:
  assumes "reachable memory_size m" "Allocate m sz = Inr (Some it, m')"
  shows "\<exists>m''. Free m' it = Inr m'' \<and> free_ranges m'' = free_ranges m \<and>
           free_addresses m'' = free_addresses m \<and> layout m'' = layout m"
proof -
  have c: "consistent m" using assms(1) by (rule reachable_consistent)
  have r': "reachable memory_size m'" using assms by (rule reachable.allocated)
  have h: "it \<in> set (memory_segments m')" "\<not> is_free m' it"
    using Allocate_handle [OF c assms(2)] by simp_all
  obtain xs ys where "memory_segments m' = xs @ it # ys"
    using h(1) by (auto dest: split_list)
  then obtain m'' where f: "Free m' it = Inr m''"
    using Free_returns_reachable [OF r' _ h(2)] by blast
  have "layout m'' = layout m \<and> free_ranges m'' = free_ranges m"
    using round_trip_when_Free_returns [OF assms f] .
  then show ?thesis using f by (simp add: free_addresses_def)
qed

theorem Free_after_Allocate_restores_free_ranges_witness:
  "reachable 10 example_two_free \<and> free_ranges example_two_free = [(0, 3), (4, 10)] \<and>
   (\<exists>m' m''. Allocate example_two_free 5 = Inr (Some 3, m') \<and>
      memory_segments m' = [1, 2, 3, 0] \<and> free_memory_segments m' = [1, 0] \<and>
      free_ranges m' = [(0, 3), (9, 10)] \<and>
      Free m' 3 = Inr m'' \<and> free_ranges m'' = [(0, 3), (4, 10)])"
proof -
  note r = example_two_free_reachable
  have f: "free_ranges example_two_free = [(0, 3), (4, 10)]"
    by (simp add: free_ranges_def example_two_free_def is_free_def range_of_def)
  obtain m' where a: "Allocate example_two_free 5 = Inr (Some 3, m')"
    "memory_segments m' = [1, 2, 3, 0]" "free_memory_segments m' = [1, 0]"
    "free_ranges m' = [(0, 3), (9, 10)]"
    by (simp add: example_two_free_def heap_eval manager_eval is_free_def range_of_def
          free_ranges_def fun_upd_twist)
  obtain m'' where "Free m' 3 = Inr m''" "free_ranges m'' = free_ranges example_two_free"
    using Free_after_Allocate_restores_free_ranges [OF r a(1)] by blast
  then show ?thesis using r f a by auto
qed

section \<open>The driver\<close>

lemma read_query_int:
  assumes "- 2147483648 \<le> v" "v < 2147483648"
  shows "read_query v = (if 0 \<le> v then AllocationQuery (nat v) else FreeQuery (- v - 1))"
proof (cases "0 \<le> v")
  case True
  then have "v mod 18446744073709551616 = v" using assms by simp
  then show ?thesis using True by (simp add: read_query_def to_size_t_def)
next
  case False
  then have "(- v - 1 + 2147483648) mod 4294967296 = - v - 1 + 2147483648"
    using assms by simp
  then show ?thesis using False by (simp add: read_query_def to_int_def)
qed

lemma run_queries_append:
  "run_queries st n (xs @ ys) =
     (case run_queries st n xs of
        Inl e \<Rightarrow> Inl e
      | Inr st' \<Rightarrow> run_queries st' (n + length xs) ys)"
  by (induction xs arbitrary: st n) (auto split: sum.splits)

lemma state_before_Suc:
  assumes "n < length queries"
  shows "state_before memory_size queries (Suc n) =
           (case state_before memory_size queries n of
              Inl e \<Rightarrow> Inl e
            | Inr st \<Rightarrow> run_query st n (queries ! n))"
proof -
  have "take (Suc n) queries = take n queries @ [queries ! n]"
    using assms by (simp add: take_Suc_conv_app_nth)
  moreover have "length (take n queries) = n" using assms by simp
  ultimately show ?thesis
    by (simp add: state_before_def run_queries_append split: sum.splits)
qed

lemma state_before_all:
  "RunMemoryManager memory_size queries =
     (case state_before memory_size queries (length queries) of
        Inl e \<Rightarrow> Inl e
      | Inr (m, results, responses) \<Rightarrow> Inr responses)"
  by (simp add: RunMemoryManager_def state_before_def split: sum.splits)

lemma state_before_earlier:
  assumes "state_before memory_size queries (length queries) = Inr st" "n \<le> length queries"
  shows "\<exists>m results responses. state_before memory_size queries n = Inr (m, results, responses)"
proof -
  have "queries = take n queries @ drop n queries" by simp
  then have "run_queries st0 0 queries =
      (case run_queries st0 0 (take n queries) of
         Inl e \<Rightarrow> Inl e
       | Inr st' \<Rightarrow> run_queries st' (0 + length (take n queries)) (drop n queries))" for st0
    using run_queries_append [of st0 0 "take n queries" "drop n queries"] by simp
  then show ?thesis
    using assms(1) by (auto simp: state_before_def split: sum.splits)
qed

lemma run_query_results:
  assumes "run_query (m, results, responses) n q = Inr (m', results', responses')"
  shows "length results' = length results \<and> (\<forall>k. k \<noteq> n \<longrightarrow> results' ! k = results ! k)"
  using assms by (cases q) (auto split: sum.splits option.splits if_splits simp: Let_def)

lemma results_hold_handles:
  assumes "n \<le> length queries"
    "state_before memory_size queries n = Inr (m, results, responses)"
  shows "length results = length queries \<and>
         (\<forall>k<length queries.
            results ! k = (if k < n then handle_of memory_size queries k else None))"
  using assms
proof (induction n arbitrary: m results responses)
  case 0
  then show ?case by (auto simp: state_before_def split: sum.splits)
next
  case (Suc n)
  have n: "n < length queries" using Suc.prems(1) by simp
  obtain m0 results0 responses0 where
    s0: "state_before memory_size queries n = Inr (m0, results0, responses0)"
    and step: "run_query (m0, results0, responses0) n (queries ! n) = Inr (m, results, responses)"
    using Suc.prems(2) by (auto simp: state_before_Suc [OF n] split: sum.splits)
  have ih: "length results0 = length queries"
    "\<And>k. k < length queries \<Longrightarrow>
       results0 ! k = (if k < n then handle_of memory_size queries k else None)"
    using Suc.IH [OF _ s0] n by auto
  note keep = run_query_results [OF step]
  have here: "results ! n = handle_of memory_size queries n"
    using step n ih(1) s0
    by (cases "queries ! n")
       (auto simp: handle_of_def Let_def split: sum.splits option.splits if_splits)
  show ?case
  proof (intro conjI allI impI)
    show "length results = length queries" using keep ih(1) by simp
    fix k assume k: "k < length queries"
    show "results ! k = (if k < Suc n then handle_of memory_size queries k else None)"
    proof (cases "k = n")
      case True
      then show ?thesis using here by simp
    next
      case False
      then have "results ! k = results0 ! k" using keep by simp
      then show ?thesis using ih(2) [OF k] False by auto
    qed
  qed
qed

lemma request_served:
  assumes "n < length queries"
    "state_before memory_size queries (Suc n) = Inr st"
  shows "served memory_size queries n"
proof -
  obtain m results responses where
    s0: "state_before memory_size queries n = Inr (m, results, responses)"
    and step: "run_query (m, results, responses) n (queries ! n) = Inr st"
    using assms(2) by (auto simp: state_before_Suc [OF assms(1)] split: sum.splits)
  note r = results_hold_handles [OF _ s0]
  show ?thesis
  proof (cases "queries ! n")
    case (AllocationQuery s)
    then show ?thesis
      using step s0 assms(2) by (auto simp: served_def split: sum.splits)
  next
    case (FreeQuery k)
    then have k: "0 \<le> k" "nat k < length queries"
      using step r assms(1) by (auto simp: Let_def split: if_splits)
    have "(results[n := None]) ! nat k =
            (if 0 \<le> k \<and> nat k < n then handle_of memory_size queries (nat k) else None)"
      using r k assms(1) by (cases "nat k = n") auto
    then show ?thesis
      using step s0 assms(2) FreeQuery k r assms(1)
      by (auto simp: served_def Let_def split: sum.splits option.splits)
  qed
qed

lemma responses_count:
  assumes "n \<le> length queries"
    "state_before memory_size queries n = Inr (m, results, responses)"
  shows "length responses =
           length (filter (\<lambda>q. case q of AllocationQuery s \<Rightarrow> True | FreeQuery k \<Rightarrow> False)
             (take n queries))"
  using assms
proof (induction n arbitrary: m results responses)
  case 0
  then show ?case by (auto simp: state_before_def split: sum.splits)
next
  case (Suc n)
  have n: "n < length queries" using Suc.prems(1) by simp
  obtain m0 results0 responses0 where
    s0: "state_before memory_size queries n = Inr (m0, results0, responses0)"
    and step: "run_query (m0, results0, responses0) n (queries ! n) = Inr (m, results, responses)"
    using Suc.prems(2) by (auto simp: state_before_Suc [OF n] split: sum.splits)
  have ih: "length responses0 =
      length (filter (\<lambda>q. case q of AllocationQuery s \<Rightarrow> True | FreeQuery k \<Rightarrow> False)
        (take n queries))"
    using Suc.IH [OF _ s0] n by simp
  show ?case
    using step ih n
    by (cases "queries ! n")
       (auto simp: take_Suc_conv_app_nth Let_def split: sum.splits option.splits if_splits)
qed

subsection \<open>The handles that the driver holds\<close>

lemma Allocate_keeps_allocated:
  assumes c: "consistent m" and a: "Allocate m sz = Inr (result, m')"
    and x: "x \<in> set (memory_segments m)" "\<not> is_free m x"
  shows "x \<in> set (memory_segments m') \<and> \<not> is_free m' x"
proof -
  have out: "x \<notin> set (free_memory_segments m)" using free_iff_heap [OF c x(1)] x(2) by simp
  show ?thesis
  proof (rule Allocate_cases [OF c, of sz])
    assume "Allocate m sz = Inr (None, m)"
    then show ?thesis using a x by simp
  next
    assume "Allocate m sz = Inr (None, m)"
    then show ?thesis using a x by simp
  next
    fix m2 assume e: "free_memory_segments m \<noteq> []"
      "sz = Size (segment_at m (free_memory_segments m ! 0))"
    from Allocate_exact [OF c e] a
    have s: "consistent m'" "memory_segments m' = memory_segments m"
      "set (free_memory_segments m') = set (free_memory_segments m) - {free_memory_segments m ! 0}"
      by auto
    then show ?thesis using free_iff_heap [OF s(1), of x] x(1) out by simp
  next
    fix m2 assume e: "free_memory_segments m \<noteq> []"
      "sz < Size (segment_at m (free_memory_segments m ! 0))"
    from Allocate_split [OF c e] a
    have s: "consistent m'"
      "memory_segments m' =
         list_insert (free_memory_segments m ! 0) (nodes_created m) (memory_segments m)"
      "set (free_memory_segments m') = set (free_memory_segments m)"
      by auto
    then show ?thesis using free_iff_heap [OF s(1), of x] x(1) out by simp
  qed
qed

lemma Free_keeps_allocated:
  assumes c: "consistent m" and p: "p \<in> set (memory_segments m)" "\<not> is_free m p"
    and f: "Free m p = Inr m'"
    and x: "x \<in> set (memory_segments m)" "\<not> is_free m x" "x \<noteq> p"
  shows "x \<in> set (memory_segments m') \<and> \<not> is_free m' x"
proof -
  obtain xs ys where o: "memory_segments m = xs @ p # ys"
    using p(1) by (auto dest: split_list)
  note s = Free_spec [OF c o p(2) f]
  have c': "consistent m'" using s by simp
  have out: "x \<notin> set (free_memory_segments m)" using free_iff_heap [OF c x(1)] x(2) by simp
  have "x \<in> set (if xs \<noteq> [] \<and> is_free m (last xs) then butlast xs else xs) \<or>
        x \<in> set (if ys \<noteq> [] \<and> is_free m (hd ys) then tl ys else ys)"
  proof -
    have "x \<in> set xs \<or> x \<in> set ys" using x(1,3) o by simp
    then show ?thesis
    proof
      assume a: "x \<in> set xs"
      then have "xs \<noteq> []" by auto
      then have "xs = butlast xs @ [last xs]" by simp
      then have "x \<in> set (butlast xs) \<or> x = last xs"
        using a by (metis Un_iff insert_iff list.set(2) set_append empty_iff list.set(1))
      then show ?thesis using a x(2) by auto
    next
      assume a: "x \<in> set ys"
      then have "ys = hd ys # tl ys" by (cases ys) auto
      then have "x = hd ys \<or> x \<in> set (tl ys)" using a by (metis set_ConsD)
      then show ?thesis using a x(2) by auto
    qed
  qed
  then have in': "x \<in> set (memory_segments m')" using s by auto
  have "x \<notin> set (free_memory_segments m')" using s out x(3) by auto
  then show ?thesis using free_iff_heap [OF c' in'] in' by simp
qed

lemma reachable_left_bounds:
  assumes r: "reachable memory_size m" and x: "x \<in> set (memory_segments m)"
  shows "0 \<le> left (segment_at m x) \<and> left (segment_at m x) < 2 ^ 31"
proof -
  have in_r: "range_of m x \<in> set (ranges m)" using x by (simp add: ranges_def)
  show ?thesis
  proof (cases "0 \<le> to_int (int memory_size)")
    case True
    note cb = covers_bounds [OF reachable_covers_int [OF True r] in_r]
    then show ?thesis using to_int_less [of "int memory_size"] by (simp add: range_of_def)
  next
    case False
    then have "range_of m x = (0, to_int (int memory_size))"
      using reachable_single [OF _ r] in_r by simp
    then show ?thesis by (simp add: range_of_def)
  qed
qed

lemma line_of_position:
  assumes "0 \<le> l" "l < 2 ^ 31"
  shows "OutputMemoryManagerResponses [MakeSuccessfulAllocation (to_size_t l)] = [l + 1]"
proof -
  have l: "to_size_t l = nat l" using assms by (simp add: to_size_t_def)
  have "int (nat l + 1) < 18446744073709551616" using assms by simp
  then have "nat l + 1 < 18446744073709551616" by linarith
  then have "(nat l + 1) mod 2 ^ 64 = nat l + 1" by simp
  then show ?thesis
    using assms by (simp add: OutputMemoryManagerResponses_def MakeSuccessfulAllocation_def l)
qed

lemma Output_append:
  "OutputMemoryManagerResponses (xs @ ys) =
     OutputMemoryManagerResponses xs @ OutputMemoryManagerResponses ys"
  by (simp add: OutputMemoryManagerResponses_def)

lemma freed_before_Suc:
  "freed_before queries (Suc n) j \<longleftrightarrow>
     freed_before queries n j \<or> (j < n \<and> queries ! n = FreeQuery (int j))"
  by (auto simp: freed_before_def less_Suc_eq)

lemma live_Allocate:
  assumes l: "live memory_size queries n m" and c: "consistent m"
    and a: "Allocate m s = Inr (result, m')"
    and h: "handle_of memory_size queries n = result"
    and q: "queries ! n = AllocationQuery s"
  shows "live memory_size queries (Suc n) m'"
proof -
  have fb: "freed_before queries (Suc n) j = freed_before queries n j" for j
    using q by (simp add: freed_before_Suc)
  have new: "it \<in> set (memory_segments m') \<and> \<not> is_free m' it \<and>
      ((it \<in> set (memory_segments m) \<and> is_free m it) \<or> it \<notin> set (memory_segments m))"
    if "result = Some it" for it
    using Allocate_handle [OF c] a that by simp
  have old: "it \<in> set (memory_segments m) \<and> \<not> is_free m it"
    if "k < n" "handle_of memory_size queries k = Some it" "\<not> freed_before queries n k" for k it
    using l that by (simp add: live_def)
  have one: "it \<in> set (memory_segments m') \<and> \<not> is_free m' it"
    if k: "k < Suc n" "handle_of memory_size queries k = Some it"
      "\<not> freed_before queries (Suc n) k" for k it
  proof (cases "k = n")
    case True
    then show ?thesis using new [of it] k(2) h by simp
  next
    case False
    then have "k < n" using k(1) by simp
    then have "it \<in> set (memory_segments m) \<and> \<not> is_free m it"
      using old [of k it] k(2,3) by (simp add: fb)
    then show ?thesis using Allocate_keeps_allocated [OF c a] by simp
  qed
  have two: "freed_before queries (Suc n) k \<or> freed_before queries (Suc n) k'"
    if k: "k < Suc n" "k' < Suc n" "k \<noteq> k'" "handle_of memory_size queries k = Some it"
      "handle_of memory_size queries k' = Some it" for k k' it
  proof (rule ccontr)
    assume n: "\<not> (freed_before queries (Suc n) k \<or> freed_before queries (Suc n) k')"
    then have nf: "\<not> freed_before queries n k" "\<not> freed_before queries n k'"
      by (simp_all add: fb)
    consider "k < n" "k' < n" | "k = n" "k' < n" | "k < n" "k' = n" using k(1,2,3) by linarith
    then show False
    proof cases
      case 1
      then show ?thesis using l k(3,4,5) nf by (auto simp: live_def)
    next
      case 2
      then show ?thesis using old [OF 2(2) k(5) nf(2)] new [of it] k(4) h by auto
    next
      case 3
      then show ?thesis using old [OF 3(1) k(4) nf(1)] new [of it] k(5) h by auto
    qed
  qed
  show ?thesis unfolding live_def using one two by blast
qed

lemma live_skip:
  assumes l: "live memory_size queries n m"
    and h: "handle_of memory_size queries n = None"
  shows "live memory_size queries (Suc n) m"
proof -
  have fb: "freed_before queries n j \<Longrightarrow> freed_before queries (Suc n) j" for j
    by (simp add: freed_before_Suc)
  have one: "it \<in> set (memory_segments m) \<and> \<not> is_free m it"
    if k: "k < Suc n" "handle_of memory_size queries k = Some it"
      "\<not> freed_before queries (Suc n) k" for k it
  proof -
    have "k \<noteq> n" using k(2) h by auto
    then have "k < n" using k(1) by simp
    then show ?thesis using l k(2,3) fb [of k] by (auto simp: live_def)
  qed
  have two: "freed_before queries (Suc n) k \<or> freed_before queries (Suc n) k'"
    if k: "k < Suc n" "k' < Suc n" "k \<noteq> k'" "handle_of memory_size queries k = Some it"
      "handle_of memory_size queries k' = Some it" for k k' it
  proof -
    have "k \<noteq> n" "k' \<noteq> n" using k(4,5) h by auto
    then have "k < n" "k' < n" using k(1,2) by simp_all
    then have "freed_before queries n k \<or> freed_before queries n k'"
      using l k(3,4,5) by (auto simp: live_def)
    then show ?thesis using fb by blast
  qed
  show ?thesis unfolding live_def using one two by blast
qed

lemma live_Free:
  assumes l: "live memory_size queries n m" and c: "consistent m"
    and h: "handle_of memory_size queries n = None"
    and q: "queries ! n = FreeQuery k" "0 \<le> k" "nat k < n"
    and hk: "handle_of memory_size queries (nat k) = Some p"
    and nf: "\<not> freed_before queries n (nat k)"
    and f: "Free m p = Inr m'"
  shows "live memory_size queries (Suc n) m'"
proof -
  have p: "p \<in> set (memory_segments m)" "\<not> is_free m p"
    using l q(3) hk nf by (auto simp: live_def)
  have fb: "freed_before queries (Suc n) j \<longleftrightarrow> freed_before queries n j \<or> j = nat k" for j
    using q by (auto simp: freed_before_Suc)
  have one: "it \<in> set (memory_segments m') \<and> \<not> is_free m' it"
    if j: "j < Suc n" "handle_of memory_size queries j = Some it"
      "\<not> freed_before queries (Suc n) j" for j it
  proof -
    have "j \<noteq> n" using j(2) h by auto
    then have jn: "j < n" using j(1) by simp
    have jk: "j \<noteq> nat k" "\<not> freed_before queries n j" using j(3) by (simp_all add: fb)
    have x: "it \<in> set (memory_segments m)" "\<not> is_free m it"
      using l jn j(2) jk(2) by (auto simp: live_def)
    have "it \<noteq> p"
    proof
      assume "it = p"
      then have "freed_before queries n j \<or> freed_before queries n (nat k)"
        using l jn q(3) jk(1) j(2) hk by (auto simp: live_def)
      then show False using jk(2) nf by simp
    qed
    then show ?thesis using Free_keeps_allocated [OF c p f x] by simp
  qed
  have two: "freed_before queries (Suc n) j \<or> freed_before queries (Suc n) j'"
    if j: "j < Suc n" "j' < Suc n" "j \<noteq> j'" "handle_of memory_size queries j = Some it"
      "handle_of memory_size queries j' = Some it" for j j' it
  proof -
    have "j \<noteq> n" "j' \<noteq> n" using j(4,5) h by auto
    then have "j < n" "j' < n" using j(1,2) by simp_all
    then have "freed_before queries n j \<or> freed_before queries n j'"
      using l j(3,4,5) by (auto simp: live_def)
    then show ?thesis using fb by blast
  qed
  show ?thesis unfolding live_def using one two by blast
qed

subsection \<open>The run of a stream\<close>

lemma run_invariant:
  assumes ic: "in_contract memory_size queries"
  shows "n \<le> length queries \<Longrightarrow>
    \<exists>m results responses.
       state_before memory_size queries n = Inr (m, results, responses) \<and>
       reachable memory_size m \<and> live memory_size queries n m \<and>
       OutputMemoryManagerResponses responses =
         concat (map (line_of memory_size queries) [0..<n])"
proof (induction n)
  case 0
  obtain m0 where "MemoryManager_new memory_size = Inr m0" "reachable memory_size m0"
    using MemoryManager_new_returns by blast
  then show ?case
    by (simp add: state_before_def live_def OutputMemoryManagerResponses_def)
next
  case (Suc n)
  then have n: "n < length queries" by simp
  obtain m results responses where
    s0: "state_before memory_size queries n = Inr (m, results, responses)"
    and r: "reachable memory_size m" and l: "live memory_size queries n m"
    and out: "OutputMemoryManagerResponses responses =
                concat (map (line_of memory_size queries) [0..<n])"
    using Suc.IH n by auto
  have c: "consistent m" using r by (rule reachable_consistent)
  have res: "length results = length queries"
    "\<And>k. k < length queries \<Longrightarrow>
       results ! k = (if k < n then handle_of memory_size queries k else None)"
    using results_hold_handles [OF _ s0] n by auto
  note step = state_before_Suc [OF n, of memory_size]
  show ?case
  proof (cases "queries ! n")
    case (AllocationQuery s)
    obtain result m' where a: "Allocate m s = Inr (result, m')"
      and r': "reachable memory_size m'"
      using Allocate_returns [OF r, of s] by blast
    have h: "handle_of memory_size queries n = result"
      using n s0 AllocationQuery a by (simp add: handle_of_def)
    define response where "response =
      (case result of
         Some it \<Rightarrow> MakeSuccessfulAllocation (to_size_t (left (segment_at m' it)))
       | None \<Rightarrow> MakeFailedAllocation)"
    have s1: "state_before memory_size queries (Suc n) =
                Inr (m', results[n := result], responses @ [response])"
      using s0 AllocationQuery a by (simp add: step response_def)
    have l': "live memory_size queries (Suc n) m'"
      using live_Allocate [OF l c a h AllocationQuery] .
    have "OutputMemoryManagerResponses [response] = line_of memory_size queries n"
    proof (cases result)
      case None
      then show ?thesis
        using s0 AllocationQuery a
        by (simp add: line_of_def response_def OutputMemoryManagerResponses_def
              MakeFailedAllocation_def)
    next
      case (Some it)
      then have "it \<in> set (memory_segments m')" using Allocate_handle [OF c] a by simp
      then have "OutputMemoryManagerResponses
                   [MakeSuccessfulAllocation (to_size_t (left (segment_at m' it)))]
                 = [left (segment_at m' it) + 1]"
        using reachable_left_bounds [OF r'] by (intro line_of_position) simp_all
      then show ?thesis
        using s0 AllocationQuery a Some by (simp add: line_of_def response_def)
    qed
    then have "OutputMemoryManagerResponses (responses @ [response]) =
                 concat (map (line_of memory_size queries) [0..<Suc n])"
      using out by (simp add: Output_append)
    then show ?thesis using s1 r' l' by blast
  next
    case (FreeQuery k)
    have k: "0 \<le> k" "nat k < length queries"
      and once: "freed_before queries n (nat k)
                   \<Longrightarrow> handle_of memory_size queries (nat k) = None"
      using ic n FreeQuery by (auto simp: in_contract_def)
    have h: "handle_of memory_size queries n = None"
      using n s0 FreeQuery by (simp add: handle_of_def)
    have ln: "line_of memory_size queries n = []"
      using s0 FreeQuery by (simp add: line_of_def)
    then have out': "OutputMemoryManagerResponses responses =
                 concat (map (line_of memory_size queries) [0..<Suc n])"
      using out by simp
    have look: "(results[n := None]) ! nat k =
                  (if nat k < n then handle_of memory_size queries (nat k) else None)"
      using res k n by (cases "nat k = n") auto
    show ?thesis
    proof (cases "(results[n := None]) ! nat k")
      case None
      then have "state_before memory_size queries (Suc n) =
                   Inr (m, results[n := None], responses)"
        using s0 FreeQuery k res(1) by (simp add: step Let_def)
      then show ?thesis using r live_skip [OF l h] out' by blast
    next
      case (Some p)
      then have kn: "nat k < n" and hk: "handle_of memory_size queries (nat k) = Some p"
        using look by (auto split: if_splits)
      have nf: "\<not> freed_before queries n (nat k)" using once hk by auto
      have p: "p \<in> set (memory_segments m)" "\<not> is_free m p"
        using l kn hk nf by (auto simp: live_def)
      obtain xs ys where "memory_segments m = xs @ p # ys"
        using p(1) by (auto dest: split_list)
      then obtain m' where f: "Free m p = Inr m'" and r': "reachable memory_size m'"
        using Free_returns_reachable [OF r _ p(2)] by blast
      have "state_before memory_size queries (Suc n) =
              Inr (m', results[n := None], responses)"
        using s0 FreeQuery k res(1) Some f by (simp add: step Let_def)
      then show ?thesis
        using r' live_Free [OF l c h FreeQuery k(1) kn hk nf f] out' by blast
    qed
  qed
qed

text \<open>
  Claim C8, for the streams the driver is written for: every free request names a
  request of the stream, and no handle is freed twice. The driver reads a value
  \<open>v \<ge> 0\<close> as an allocation request of size \<open>v\<close> and \<open>v < 0\<close> as a free request for
  request \<open>-v - 1\<close>. The run returns, and each request is served as such: an
  allocation request by \<^verbatim>\<open>Allocate\<close>; a free request for an earlier request that
  obtained a handle by \<^verbatim>\<open>Free\<close> on that handle, and any other free request (for a
  failed allocation, for a free request) by no operation on the manager. The output
  has, in stream order, one line for each allocation request, the left end of the
  returned segment plus one or \<open>-1\<close>, and none for a free request.
\<close>

theorem driver_serves_requests:
  assumes "\<forall>v\<in>set stream. - 2147483648 \<le> v \<and> v < 2147483648"
    and "in_contract memory_size (ReadMemoryManagerQueries stream)"
  shows "ReadMemoryManagerQueries stream =
           map (\<lambda>v. if 0 \<le> v then AllocationQuery (nat v) else FreeQuery (- v - 1)) stream \<and>
         (\<exists>responses.
            RunMemoryManager memory_size (ReadMemoryManagerQueries stream) = Inr responses \<and>
            OutputMemoryManagerResponses responses =
              concat (map (line_of memory_size (ReadMemoryManagerQueries stream))
                [0..<length stream]) \<and>
            length responses = length (filter (\<lambda>v. 0 \<le> v) stream)) \<and>
         (\<forall>n<length stream. served memory_size (ReadMemoryManagerQueries stream) n)"
proof -
  let ?queries = "ReadMemoryManagerQueries stream"
  have len: "length ?queries = length stream" by (simp add: ReadMemoryManagerQueries_def)
  have parse: "?queries =
      map (\<lambda>v. if 0 \<le> v then AllocationQuery (nat v) else FreeQuery (- v - 1)) stream"
    unfolding ReadMemoryManagerQueries_def
    by (rule map_cong [OF refl]) (use assms(1) in \<open>simp add: read_query_int\<close>)
  obtain m results responses where
    full: "state_before memory_size ?queries (length ?queries) = Inr (m, results, responses)"
    and out: "OutputMemoryManagerResponses responses =
                concat (map (line_of memory_size ?queries) [0..<length ?queries])"
    using run_invariant [OF assms(2), of "length ?queries"] by auto
  have run: "RunMemoryManager memory_size ?queries = Inr responses"
    using full by (simp add: state_before_all)
  have cnt: "length responses = length (filter (\<lambda>v. 0 \<le> v) stream)"
  proof -
    have "length responses =
        length (filter (\<lambda>q. case q of AllocationQuery s \<Rightarrow> True | FreeQuery k \<Rightarrow> False) ?queries)"
      using responses_count [OF _ full] by simp
    also have "\<dots> = length (filter (\<lambda>v. 0 \<le> v) stream)"
      by (subst parse) (simp add: filter_map comp_def if_distrib cong: if_cong)
    finally show ?thesis .
  qed
  have "served memory_size ?queries n" if n: "n < length stream" for n
  proof -
    obtain m1 results1 responses1 where
      "state_before memory_size ?queries (Suc n) = Inr (m1, results1, responses1)"
      using run_invariant [OF assms(2), of "Suc n"] n len by auto
    then show ?thesis using request_served n len by simp
  qed
  then show ?thesis using parse run out cnt len by auto
qed

theorem driver_serves_requests_witness:
  "in_contract 10 (ReadMemoryManagerQueries [3, 3, 8, - 3, - 1, - 2, 10]) \<and>
   RunMemoryManager 10 (ReadMemoryManagerQueries [3, 3, 8, - 3, - 1, - 2, 10]) =
     Inr [MakeSuccessfulAllocation 0, MakeSuccessfulAllocation 3, MakeFailedAllocation,
          MakeSuccessfulAllocation 0] \<and>
   OutputMemoryManagerResponses
     [MakeSuccessfulAllocation 0, MakeSuccessfulAllocation 3, MakeFailedAllocation,
      MakeSuccessfulAllocation 0] = [1, 4, - 1, 1] \<and>
   concat (map (line_of 10 (ReadMemoryManagerQueries [3, 3, 8, - 3, - 1, - 2, 10])) [0..<7])
     = [1, 4, - 1, 1] \<and>
   served 10 (ReadMemoryManagerQueries [3, 3, 8, - 3, - 1, - 2, 10]) 3 \<and>
   served 10 (ReadMemoryManagerQueries [3, 3, 8, - 3, - 1, - 2, 10]) 5"
proof -
  let ?stream = "[3, 3, 8, - 3, - 1, - 2, 10 :: int]"
  have q: "ReadMemoryManagerQueries ?stream =
      [AllocationQuery 3, AllocationQuery 3, AllocationQuery 8, FreeQuery 2, FreeQuery 0,
       FreeQuery 1, AllocationQuery 10]"
    by (simp add: ReadMemoryManagerQueries_def read_query_def to_int_def to_size_t_def)
  have ic: "in_contract 10 (ReadMemoryManagerQueries ?stream)"
    unfolding q by (auto simp: in_contract_def freed_before_def less_Suc_eq numeral_eq_Suc)
  have ints: "\<forall>v\<in>set ?stream. - 2147483648 \<le> v \<and> v < 2147483648" by simp
  have run: "RunMemoryManager 10 (ReadMemoryManagerQueries ?stream) =
     Inr [MakeSuccessfulAllocation 0, MakeSuccessfulAllocation 3, MakeFailedAllocation,
          MakeSuccessfulAllocation 0]"
    unfolding q
    by (simp add: RunMemoryManager_def MakeSuccessfulAllocation_def MakeFailedAllocation_def
          heap_eval manager_eval)
  have out: "OutputMemoryManagerResponses
     [MakeSuccessfulAllocation 0, MakeSuccessfulAllocation 3, MakeFailedAllocation,
      MakeSuccessfulAllocation 0] = [1, 4, - 1, 1]"
    by (simp add: OutputMemoryManagerResponses_def MakeSuccessfulAllocation_def
          MakeFailedAllocation_def)
  note t = driver_serves_requests [OF ints ic]
  have all: "\<And>n. n < length ?stream \<Longrightarrow> served 10 (ReadMemoryManagerQueries ?stream) n"
    using t by blast
  have three: "served 10 (ReadMemoryManagerQueries ?stream) 3" by (rule all) simp
  have five: "served 10 (ReadMemoryManagerQueries ?stream) 5" by (rule all) simp
  obtain responses where r:
    "RunMemoryManager 10 (ReadMemoryManagerQueries ?stream) = Inr responses"
    "OutputMemoryManagerResponses responses =
       concat (map (line_of 10 (ReadMemoryManagerQueries ?stream)) [0..<length ?stream])"
    using t by blast
  have "responses = [MakeSuccessfulAllocation 0, MakeSuccessfulAllocation 3, MakeFailedAllocation,
          MakeSuccessfulAllocation 0]"
    using r(1) run by simp
  moreover have "length ?stream = 7" by simp
  ultimately have lines:
    "concat (map (line_of 10 (ReadMemoryManagerQueries ?stream)) [0..<7]) = [1, 4, - 1, 1]"
    using r(2) out by (simp only:)
  show ?thesis using ic run out lines three five by (intro conjI)
qed

end
